theory Spec2Isabelle
  imports Complex_Main "HOL-Library.AList"
begin

section \<open>The build queue of web2apk (src/utils/buildQueue.js)\<close>

text \<open>
  The class \<open>BuildQueue\<close> keeps an ordered list of pending builds (\<open>this.queue\<close>), an
  insertion-ordered JavaScript \<open>Map\<close> of running builds (\<open>this.activeBuilds\<close>), four
  statistics counters and a JSON file on disk. Every method is modelled as a function
  that takes the state and returns the new one. \<open>Date.now()\<close> is an argument \<open>now\<close> of
  each method: the clock is read as not advancing inside one synchronous call.
  Calls to \<open>console\<close> and to the position callback \<open>onQueueUpdate\<close> change nothing in
  the object and are left out.
\<close>

subsection \<open>Data\<close>

text \<open>
  A chat id is a number (Telegram chat ids) or a string (the web server reserves slots
  under \<open>'web-' + Date.now()\<close>). \<open>Map\<close> keys and \<open>===\<close> tell the two apart.
\<close>

datatype chatId = NumId int | StrId string

text \<open>The queue item built in \<open>addToQueue\<close>; \<open>'p\<close> is the opaque build payload.\<close>

record 'p item =
  item_id :: string
  chatId :: chatId
  userName :: string
  buildData :: 'p
  item_type :: string
  priority :: bool
  addedAt :: int
  status :: string

text \<open>The value stored in \<open>activeBuilds\<close> by \<open>acquire\<close>.\<close>

record 'p build =
  startTime :: int
  lastActivity :: int
  b_buildData :: 'p
  b_type :: string
  b_userName :: string

record stats =
  success :: int
  failed :: int
  total :: int
  totalTime :: int

text \<open>
  The file \<open>data/queue.json\<close>: absent, unreadable as the expected JSON (the \<open>try\<close> of
  \<open>load\<close> catches the error), or a document. A document written by \<open>save\<close> has all
  three keys; one written by hand may lack \<open>queue\<close> or \<open>stats\<close>.
\<close>

record 'p document =
  d_queue :: "'p item list option"
  d_stats :: "stats option"
  lastSaved :: int

datatype 'p qfile = Missing | Corrupt | Doc "'p document"

text \<open>
  The object. \<open>onBuildStart\<close> is \<open>True\<close> when a start callback is assigned and \<open>False\<close>
  while the field is \<open>null\<close>, as the constructor leaves it. \<open>fs_writable\<close> says whether
  \<open>writeFileSync\<close> succeeds (otherwise \<open>save\<close> logs and goes on). \<open>started\<close> lists the
  chat ids the start callback has been invoked with, and \<open>drains\<close> counts the
  invocations of \<open>processNext\<close>; both are bookkeeping of the model.
\<close>

record 'p state =
  maxConcurrent :: int
  adminIds :: "string list"
  queue :: "'p item list"
  activeBuilds :: "(chatId \<times> 'p build) list"
  stats :: stats
  onBuildStart :: bool
  disk :: "'p qfile"
  fs_writable :: bool
  started :: "chatId list"
  drains :: nat

definition MAX_BUILD_TIME :: int where
  "MAX_BUILD_TIME = 45 * 60 * 1000"

definition INACTIVITY_TIMEOUT :: int where
  "INACTIVITY_TIMEOUT = 10 * 60 * 1000"

subsection \<open>JavaScript built-ins used by the class\<close>

text \<open>\<open>String(chatId)\<close>: a string is itself, an integer is printed in decimal.\<close>

function dec_digits :: "int \<Rightarrow> string" where
  "dec_digits n = (if n < 10 then [''0123456789'' ! nat n]
                   else dec_digits (n div 10) @ [''0123456789'' ! nat (n mod 10)])"
  by pat_completeness auto
termination
  by (relation "measure nat") auto

declare dec_digits.simps [simp del]

definition dec_int :: "int \<Rightarrow> string" where
  "dec_int i = (if i < 0 then CHR ''-'' # dec_digits (- i) else dec_digits i)"

fun js_String :: "chatId \<Rightarrow> string" where
  "js_String (NumId i) = dec_int i"
| "js_String (StrId s) = s"

text \<open>Truthiness of a chat id: \<open>0\<close> and the empty string are falsy.\<close>

fun truthy :: "chatId \<Rightarrow> bool" where
  "truthy (NumId i) = (i \<noteq> 0)"
| "truthy (StrId s) = (s \<noteq> [])"

text \<open>
  The result of \<open>parseInt(process.env.MAX_CONCURRENT_BUILDS)\<close>: \<open>NaN\<close> for a missing or
  non-numeric value, otherwise an integral number, or an infinity for a digit string
  beyond the range of a double.
\<close>

datatype jsnum = NaN | NegInfinity | Num int | PosInfinity

text \<open>\<open>x || 1\<close>: \<open>NaN\<close> and \<open>0\<close> are falsy.\<close>

fun or_one :: "jsnum \<Rightarrow> jsnum" where
  "or_one NaN = Num 1"
| "or_one (Num n) = (if n = 0 then Num 1 else Num n)"
| "or_one x = x"

text \<open>\<open>Math.max(1, Math.min(x, 4))\<close> on a number that is not \<open>NaN\<close>.\<close>

fun clamp_1_4 :: "jsnum \<Rightarrow> int" where
  "clamp_1_4 (Num n) = max 1 (min n 4)"
| "clamp_1_4 PosInfinity = 4"
| "clamp_1_4 NegInfinity = 1"
| "clamp_1_4 NaN = 1"

subsection \<open>Persistence\<close>

definition load :: "'p state \<Rightarrow> 'p state" where
  "load s = (case disk s of
       Missing \<Rightarrow> s
     | Corrupt \<Rightarrow> s
     | Doc data \<Rightarrow>
         s\<lparr>queue := (case d_queue data of None \<Rightarrow> [] | Some q \<Rightarrow> q),
           stats := (case d_stats data of None \<Rightarrow> stats s | Some st \<Rightarrow> st)\<rparr>)"

definition save :: "int \<Rightarrow> 'p state \<Rightarrow> 'p state" where
  "save now s = (if fs_writable s
     then s\<lparr>disk := Doc \<lparr>d_queue = Some (queue s), d_stats = Some (stats s), lastSaved = now\<rparr>\<rparr>
     else s)"

subsection \<open>The constructor\<close>

record 'p env =
  MAX_CONCURRENT_BUILDS :: jsnum
  ADMIN_IDS :: "string list"
  queueFile :: "'p qfile"
  writable :: bool

definition BuildQueue :: "'p env \<Rightarrow> 'p state" where
  "BuildQueue e = load
     \<lparr>maxConcurrent = clamp_1_4 (or_one (MAX_CONCURRENT_BUILDS e)),
      adminIds = ADMIN_IDS e,
      queue = [],
      activeBuilds = [],
      stats = \<lparr>success = 0, failed = 0, total = 0, totalTime = 0\<rparr>,
      onBuildStart = False,
      disk = queueFile e,
      fs_writable = writable e,
      started = [],
      drains = 0\<rparr>"

subsection \<open>Queries\<close>

definition isAdmin :: "'p state \<Rightarrow> chatId \<Rightarrow> bool" where
  "isAdmin s c = List.member (adminIds s) (js_String c)"

definition has_active :: "'p state \<Rightarrow> chatId \<Rightarrow> bool" where
  "has_active s c = (map_of (activeBuilds s) c \<noteq> None)"

definition isBusy :: "'p state \<Rightarrow> bool" where
  "isBusy s = (int (length (activeBuilds s)) \<ge> maxConcurrent s)"

text \<open>\<open>findIndex(item => item.chatId === chatId)\<close>, \<open>None\<close> for \<open>-1\<close>.\<close>

fun findIndex :: "chatId \<Rightarrow> 'p item list \<Rightarrow> nat option" where
  "findIndex c [] = None"
| "findIndex c (x # xs) =
     (if chatId x = c then Some 0
      else (case findIndex c xs of None \<Rightarrow> None | Some i \<Rightarrow> Some (Suc i)))"

definition getUserPosition :: "'p state \<Rightarrow> chatId \<Rightarrow> int" where
  "getUserPosition s c = (case findIndex c (queue s) of None \<Rightarrow> 0 | Some i \<Rightarrow> int i + 1)"

text \<open>
  \<open>Math.round(totalTime / success / 1000 / 60)\<close> in exact arithmetic; \<open>Math.round\<close>
  rounds a half upwards, as \<open>round\<close> does.
\<close>

definition avgTime :: "'p state \<Rightarrow> int" where
  "avgTime s = (if success (stats s) > 0
     then round (of_int (totalTime (stats s)) / of_int (success (stats s)) / 1000 / 60 :: rat)
     else 3)"

definition getEstimatedWait :: "'p state \<Rightarrow> int \<Rightarrow> int" where
  "getEstimatedWait s position =
     (let waitPosition = max 0 (position - (maxConcurrent s - int (length (activeBuilds s))))
      in max 1 (ceiling (of_int (waitPosition * avgTime s) / of_int (maxConcurrent s) :: rat)))"

definition hasPendingBuild :: "'p state \<Rightarrow> chatId \<Rightarrow> bool" where
  "hasPendingBuild s c = list_ex (\<lambda>x. chatId x = c) (queue s)"

subsection \<open>Slots\<close>

definition acquire ::
  "chatId \<Rightarrow> 'p \<Rightarrow> string \<Rightarrow> string \<Rightarrow> int \<Rightarrow> 'p state \<Rightarrow> bool \<times> 'p state" where
  "acquire c bd ty un now s =
     (if has_active s c then (False, s)
      else if int (length (activeBuilds s)) \<ge> maxConcurrent s then (False, s)
      else (True, s\<lparr>activeBuilds := AList.update c
              \<lparr>startTime = now, lastActivity = now, b_buildData = bd, b_type = ty,
               b_userName = un\<rparr> (activeBuilds s)\<rparr>))"

text \<open>The statistics update of \<open>release\<close>.\<close>

definition record_result :: "bool \<Rightarrow> int \<Rightarrow> stats \<Rightarrow> stats" where
  "record_result ok duration st =
     (if ok then st\<lparr>success := success st + 1, totalTime := totalTime st + duration\<rparr>
      else st\<lparr>failed := failed st + 1\<rparr>)"

text \<open>
  \<open>processNext\<close> is an \<open>async\<close> function that every caller invokes without awaiting it,
  so it runs synchronously up to \<open>await this.onBuildStart(...)\<close>: that call hands the job
  to the callback, and what the callback does later (it ends in a \<open>release\<close>, as does the
  \<open>catch\<close> around it) is a later call of \<open>release\<close>. With no callback assigned there is
  no \<open>await\<close>: \<open>release(chatId, false)\<close> runs at once and calls \<open>processNext\<close> again.
\<close>

function processNext :: "int \<Rightarrow> 'p state \<Rightarrow> 'p state"
  and release :: "chatId \<Rightarrow> bool \<Rightarrow> int \<Rightarrow> 'p state \<Rightarrow> 'p state" where
  "processNext now s0 =
     (case queue s0 of
        [] \<Rightarrow> s0\<lparr>drains := Suc (drains s0)\<rparr>
      | nextBuild # rest \<Rightarrow>
          if isBusy s0 then s0\<lparr>drains := Suc (drains s0)\<rparr>
          else (case acquire (chatId nextBuild) (buildData nextBuild) (item_type nextBuild)
                       (userName nextBuild) now (s0\<lparr>drains := Suc (drains s0), queue := rest\<rparr>) of
                  (False, s2) \<Rightarrow> save now (s2\<lparr>queue := nextBuild # queue s2\<rparr>)
                | (True, s2) \<Rightarrow>
                    if onBuildStart s2
                    then (save now s2)\<lparr>started := started s2 @ [chatId nextBuild]\<rparr>
                    else release (chatId nextBuild) False now (save now s2)))"
| "release c ok now s =
     (case map_of (activeBuilds s) c of
        None \<Rightarrow> s
      | Some b \<Rightarrow>
          processNext now (save now
            (s\<lparr>stats := record_result ok (now - startTime b) (stats s),
              activeBuilds := AList.delete c (activeBuilds s)\<rparr>)))"
  by pat_completeness auto

termination
  by (relation "measure (\<lambda>x. case x of
          Inl (now, s) \<Rightarrow> 2 * length (queue s) + 1
        | Inr (c, ok, now, s) \<Rightarrow> 2 * length (queue s) + 2)")
     (auto simp: acquire_def save_def split: if_splits)

declare processNext.simps [simp del]
declare release.simps [simp del]

subsection \<open>Admission\<close>

definition removeFromQueue :: "chatId \<Rightarrow> int \<Rightarrow> 'p state \<Rightarrow> bool \<times> 'p state" where
  "removeFromQueue c now s =
     (case findIndex c (queue s) of
        None \<Rightarrow> (False, s)
      | Some i \<Rightarrow> (True, save now (s\<lparr>queue := take i (queue s) @ drop (Suc i) (queue s)\<rparr>)))"

text \<open>
  The loop of \<open>addToQueue\<close> that looks for the insertion point of a priority item:
  \<open>insertIndex q i\<close> is the final value of the variable \<open>insertIndex\<close> when the loop
  stands at index \<open>i\<close> with the items \<open>q\<close> still ahead of it.
\<close>

fun insertIndex :: "'p item list \<Rightarrow> nat \<Rightarrow> nat" where
  "insertIndex [] i = i"
| "insertIndex (x # xs) i = (if \<not> priority x then i else insertIndex xs (Suc i))"

text \<open>\<open>splice(i, 0, x)\<close>\<close>

definition splice_in :: "nat \<Rightarrow> 'a \<Rightarrow> 'a list \<Rightarrow> 'a list" where
  "splice_in i x q = take i q @ x # drop i q"

definition enqueue :: "'p item \<Rightarrow> 'p item list \<Rightarrow> 'p item list" where
  "enqueue x q = (if priority x then splice_in (insertIndex q 0) x q else q @ [x])"

text \<open>
  The object returned by \<open>addToQueue\<close>: started at once, or queued with its position,
  estimated wait, priority flag and build id.
\<close>

datatype admission = Immediate | Queued int int bool string

definition queueItem :: "chatId \<Rightarrow> 'p \<Rightarrow> string \<Rightarrow> string \<Rightarrow> bool \<Rightarrow> int \<Rightarrow> 'p item" where
  "queueItem c bd ty un isPriority now =
     \<lparr>item_id = ''build_'' @ dec_int now @ ''_'' @ js_String c,
      chatId = c, userName = un, buildData = bd, item_type = ty,
      priority = isPriority, addedAt = now, status = ''waiting''\<rparr>"

text \<open>The second half of \<open>addToQueue\<close>, from "Create queue item" on.\<close>

definition addPending ::
  "chatId \<Rightarrow> 'p \<Rightarrow> string \<Rightarrow> string \<Rightarrow> int \<Rightarrow> 'p state \<Rightarrow> admission \<times> 'p state" where
  "addPending c bd ty un now s =
     (let isPriority = isAdmin s c;
          x = queueItem c bd ty un isPriority now;
          s' = save now (s\<lparr>queue := enqueue x (queue s)\<rparr>);
          position = getUserPosition s' c
      in (Queued position (getEstimatedWait s' position) isPriority (item_id x), s'))"

definition addToQueue ::
  "chatId \<Rightarrow> 'p \<Rightarrow> string \<Rightarrow> string \<Rightarrow> int \<Rightarrow> 'p state \<Rightarrow> admission \<times> 'p state" where
  "addToQueue c bd ty un now s =
     (let s1 = snd (removeFromQueue c now s);
          s2 = s1\<lparr>stats := (stats s1)\<lparr>total := total (stats s1) + 1\<rparr>\<rparr>
      in if \<not> isBusy s2 \<and> \<not> has_active s2 c
         then (case acquire c bd ty un now s2 of
                 (True, s3) \<Rightarrow> (Immediate, save now s3)
               | (False, s3) \<Rightarrow> addPending c bd ty un now s3)
         else addPending c bd ty un now s2)"

subsection \<open>Watchdog, heartbeat and administration\<close>

definition stuck :: "int \<Rightarrow> 'p build \<Rightarrow> bool" where
  "stuck now b =
     (let total_time = now - startTime b;
          inactiveTime = now - (if lastActivity b \<noteq> 0 then lastActivity b else startTime b)
      in if total_time > MAX_BUILD_TIME then True
         else inactiveTime > INACTIVITY_TIMEOUT)"

definition toRelease :: "int \<Rightarrow> 'p state \<Rightarrow> chatId list" where
  "toRelease now s = map fst (filter (\<lambda>kb. stuck now (snd kb)) (activeBuilds s))"

definition checkStuckBuilds :: "int \<Rightarrow> 'p state \<Rightarrow> 'p state" where
  "checkStuckBuilds now s =
     (if length (activeBuilds s) = 0 then s
      else fold (\<lambda>c. release c False now) (toRelease now s) s)"

definition updateActivity :: "chatId option \<Rightarrow> int \<Rightarrow> 'p state \<Rightarrow> 'p state" where
  "updateActivity co now s =
     (case co of
        Some c \<Rightarrow>
          if truthy c \<and> has_active s c
          then s\<lparr>activeBuilds := AList.map_entry c (\<lambda>b. b\<lparr>lastActivity := now\<rparr>) (activeBuilds s)\<rparr>
          else s\<lparr>activeBuilds := map (\<lambda>kb. (fst kb, (snd kb)\<lparr>lastActivity := now\<rparr>)) (activeBuilds s)\<rparr>
      | None \<Rightarrow>
          s\<lparr>activeBuilds := map (\<lambda>kb. (fst kb, (snd kb)\<lparr>lastActivity := now\<rparr>)) (activeBuilds s)\<rparr>)"

definition forceRelease :: "chatId option \<Rightarrow> int \<Rightarrow> 'p state \<Rightarrow> 'p state" where
  "forceRelease co now s =
     save now
       (case co of
          Some c \<Rightarrow>
            if truthy c
            then (if has_active s c
                  then processNext now (s\<lparr>activeBuilds := AList.delete c (activeBuilds s)\<rparr>)
                  else s)
            else processNext now (s\<lparr>activeBuilds := []\<rparr>)
        | None \<Rightarrow> processNext now (s\<lparr>activeBuilds := []\<rparr>))"

definition resetStats :: "int \<Rightarrow> 'p state \<Rightarrow> 'p state" where
  "resetStats now s = save now (s\<lparr>stats := \<lparr>success = 0, failed = 0, total = 0, totalTime = 0\<rparr>\<rparr>)"

definition clearQueue :: "int \<Rightarrow> 'p state \<Rightarrow> nat \<times> 'p state" where
  "clearQueue now s = (length (queue s), save now (s\<lparr>queue := []\<rparr>))"

subsection \<open>Sequences of calls\<close>

text \<open>
  The public methods, and the two things the surroundings do to the object: assigning
  the start callback (or \<open>null\<close>) and the file system becoming writable or not.
\<close>

datatype 'p call =
    Submit chatId 'p string string
  | Withdraw chatId
  | Reserve chatId 'p string string
  | Release chatId bool
  | ProcessNext
  | Sweep
  | Heartbeat "chatId option"
  | ForceRelease "chatId option"
  | ResetStats
  | ClearQueue
  | SetOnBuildStart bool
  | SetWritable bool

fun step :: "int \<Rightarrow> 'p call \<Rightarrow> 'p state \<Rightarrow> 'p state" where
  "step now (Submit c bd ty un) s = snd (addToQueue c bd ty un now s)"
| "step now (Withdraw c) s = snd (removeFromQueue c now s)"
| "step now (Reserve c bd ty un) s = snd (acquire c bd ty un now s)"
| "step now (Release c ok) s = release c ok now s"
| "step now ProcessNext s = processNext now s"
| "step now Sweep s = checkStuckBuilds now s"
| "step now (Heartbeat co) s = updateActivity co now s"
| "step now (ForceRelease co) s = forceRelease co now s"
| "step now ResetStats s = resetStats now s"
| "step now ClearQueue s = snd (clearQueue now s)"
| "step now (SetOnBuildStart b) s = s\<lparr>onBuildStart := b\<rparr>"
| "step now (SetWritable b) s = s\<lparr>fs_writable := b\<rparr>"

text \<open>A run: each call with the time at which it is made.\<close>

fun run :: "(int \<times> 'p call) list \<Rightarrow> 'p state \<Rightarrow> 'p state" where
  "run [] s = s"
| "run (tc # tcs) s = run tcs (step (fst tc) (snd tc) s)"

subsection \<open>The properties the specification states\<close>

definition pending_ids :: "'p state \<Rightarrow> chatId list" where
  "pending_ids s = map chatId (queue s)"

definition active_ids :: "'p state \<Rightarrow> chatId list" where
  "active_ids s = map fst (activeBuilds s)"

text \<open>No identity twice in the Admission Queue.\<close>

definition no_duplicate_pending :: "'p state \<Rightarrow> bool" where
  "no_duplicate_pending s = distinct (pending_ids s)"

text \<open>No identity both in the Admission Queue and in the Slot Registry.\<close>

definition no_dual_occupancy :: "'p state \<Rightarrow> bool" where
  "no_dual_occupancy s = (set (pending_ids s) \<inter> set (active_ids s) = {})"

text \<open>
  A call that keeps the two apart: a submission by an identity that is not running,
  a reservation for an identity that is not waiting. Every other call is unrestricted.
\<close>

fun apart :: "'p call \<Rightarrow> 'p state \<Rightarrow> bool" where
  "apart (Submit c bd ty un) s = (\<not> has_active s c)"
| "apart (Reserve c bd ty un) s = (\<not> hasPendingBuild s c)"
| "apart other s = True"

fun all_apart :: "(int \<times> 'p call) list \<Rightarrow> 'p state \<Rightarrow> bool" where
  "all_apart [] s = True"
| "all_apart (tc # tcs) s = (apart (snd tc) s \<and> all_apart tcs (step (fst tc) (snd tc) s))"

text \<open>At most \<open>maxConcurrent\<close> running builds.\<close>

definition within_capacity :: "'p state \<Rightarrow> bool" where
  "within_capacity s = (int (length (activeBuilds s)) \<le> maxConcurrent s)"

text \<open>
  The two-bucket order: once the leading run of priority items has ended, no priority
  item follows.
\<close>

definition two_bucket :: "'p item list \<Rightarrow> bool" where
  "two_bucket q = list_all (\<lambda>x. \<not> priority x) (dropWhile priority q)"

text \<open>The file holds the queue and the statistics of the object.\<close>

definition persisted :: "'p state \<Rightarrow> bool" where
  "persisted s = (case disk s of
       Doc d \<Rightarrow> d_queue d = Some (queue s) \<and> d_stats d = Some (stats s)
     | _ \<Rightarrow> False)"

text \<open>
  The wait estimate in the words of the specification:
  \<open>max(1, ceil(effectivePositionAhead * avgMinutes / maxConcurrent))\<close> with
  \<open>effectivePositionAhead = max(0, p - (maxConcurrent - |ActiveJobs|))\<close>, and the average
  as the cumulative duration of the successes (milliseconds, here in minutes) divided by
  their number, with the fallback of three minutes.
\<close>

definition spec_wait :: "rat \<Rightarrow> int \<Rightarrow> int \<Rightarrow> int \<Rightarrow> int" where
  "spec_wait avgMinutes maxc nactive p =
     max 1 (ceiling (of_int (max 0 (p - (maxc - nactive))) * avgMinutes / of_int maxc))"

definition spec_avgMinutes :: "stats \<Rightarrow> rat" where
  "spec_avgMinutes st =
     (if success st > 0 then of_int (totalTime st) / of_int (success st) / 60000 else 3)"

subsection \<open>Concrete configurations and runs\<close>

text \<open>
  No \<open>MAX_CONCURRENT_BUILDS\<close> (one slot), the administrators 1 and 3, no queue file.
\<close>

definition demo_env :: "unit env" where
  "demo_env = \<lparr>MAX_CONCURRENT_BUILDS = NaN, ADMIN_IDS = [''1'', ''3''],
               queueFile = Missing, writable = True\<rparr>"

text \<open>The same identity submits twice.\<close>

definition twice_calls :: "(int \<times> unit call) list" where
  "twice_calls = [(10, Submit (NumId 7) () ''url'' ''U''), (20, Submit (NumId 7) () ''url'' ''U'')]"

text \<open>
  Identity 9 takes the only slot; then A = 1 (priority), B = 2, C = 3 (priority) and
  D = 4 submit in that order.
\<close>

definition abcd_calls :: "(int \<times> unit call) list" where
  "abcd_calls =
     [(5, Submit (NumId 9) () ''url'' ''Z''),
      (10, Submit (NumId 1) () ''url'' ''A''),
      (20, Submit (NumId 2) () ''zip'' ''B''),
      (30, Submit (NumId 3) () ''url'' ''C''),
      (40, Submit (NumId 4) () ''url'' ''D'')]"

text \<open>A run through every kind of call, with the start callback assigned first.\<close>

definition mixed_calls :: "(int \<times> unit call) list" where
  "mixed_calls =
     [(1, SetOnBuildStart True),
      (5, Submit (NumId 9) () ''url'' ''Z''),
      (10, Submit (NumId 1) () ''url'' ''A''),
      (20, Submit (NumId 2) () ''zip'' ''B''),
      (25, Heartbeat None),
      (30, Release (NumId 9) True),
      (35, Withdraw (NumId 2)),
      (40, Reserve (StrId ''web-40'') () ''url'' ''User''),
      (50, Submit (NumId 4) () ''url'' ''D''),
      (3000000, Sweep),
      (3000010, ProcessNext),
      (3000020, ForceRelease None),
      (3000030, ResetStats),
      (3000040, ClearQueue)]"

text \<open>Two slots, the start callback assigned; a heartbeat for build 2 only.\<close>

definition two_slot_env :: "unit env" where
  "two_slot_env = \<lparr>MAX_CONCURRENT_BUILDS = Num 2, ADMIN_IDS = [''1''],
                   queueFile = Missing, writable = True\<rparr>"

definition watchdog_calls :: "(int \<times> unit call) list" where
  "watchdog_calls =
     [(1, SetOnBuildStart True),
      (100, Submit (NumId 1) () ''url'' ''A''),
      (2000000, Submit (NumId 2) () ''url'' ''B''),
      (2000001, Submit (NumId 3) () ''zip'' ''C''),
      (2500000, Heartbeat (Some (NumId 2)))]"

text \<open>One slot taken by 9, with 1 and 2 waiting and the start callback assigned.\<close>

definition busy_calls :: "(int \<times> unit call) list" where
  "busy_calls =
     [(1, SetOnBuildStart True),
      (5, Submit (NumId 9) () ''url'' ''Z''),
      (10, Submit (NumId 1) () ''url'' ''A''),
      (20, Submit (NumId 2) () ''zip'' ''B'')]"

text \<open>The same identity submits twice, with the start callback assigned.\<close>

definition twice_started_calls :: "(int \<times> unit call) list" where
  "twice_started_calls = (1, SetOnBuildStart True) # twice_calls"

text \<open>One success of 90 seconds, then one running build and two waiting.\<close>

definition estimate_calls :: "(int \<times> unit call) list" where
  "estimate_calls =
     [(5, Submit (NumId 9) () ''url'' ''Z''),
      (90005, Release (NumId 9) True),
      (90010, Submit (NumId 1) () ''url'' ''A''),
      (90020, Submit (NumId 2) () ''url'' ''B''),
      (90030, Submit (NumId 4) () ''url'' ''D'')]"

text \<open>With two slots, identity 1 submits twice: it runs, and waits at the head of the queue.\<close>

definition blocked_calls :: "(int \<times> unit call) list" where
  "blocked_calls = [(10, Submit (NumId 1) () ''url'' ''A''), (20, Submit (NumId 1) () ''url'' ''A'')]"

text \<open>
  With two slots and the start callback assigned: 1 and 2 run, 3 and 4 wait, everything
  is force-released (which starts 3), and a slot is then reserved directly for 4.
\<close>

definition reserve_waiting_calls :: "(int \<times> unit call) list" where
  "reserve_waiting_calls =
     [(1, SetOnBuildStart True),
      (10, Submit (NumId 1) () ''url'' ''A''),
      (20, Submit (NumId 2) () ''url'' ''B''),
      (30, Submit (NumId 3) () ''url'' ''C''),
      (40, Submit (NumId 4) () ''url'' ''D''),
      (50, ForceRelease None),
      (60, Reserve (NumId 4) () ''url'' ''D'')]"

section \<open>Auxiliary facts\<close>


lemma save_sel [simp]:
  "maxConcurrent (save now s) = maxConcurrent s"
  "adminIds (save now s) = adminIds s"
  "queue (save now s) = queue s"
  "activeBuilds (save now s) = activeBuilds s"
  "stats (save now s) = stats s"
  "onBuildStart (save now s) = onBuildStart s"
  "fs_writable (save now s) = fs_writable s"
  "started (save now s) = started s"
  "drains (save now s) = drains s"
  by (simp_all add: save_def)

lemma has_active_iff: "has_active s c \<longleftrightarrow> c \<in> fst ` set (activeBuilds s)"
  by (simp add: has_active_def map_of_eq_None_iff)

lemma record_result_False: "record_result False d st = st\<lparr>failed := failed st + 1\<rparr>"
  by (simp add: record_result_def)

lemma processNext_unfold:
  "processNext now s =
     (case queue s of
        [] \<Rightarrow> s\<lparr>drains := Suc (drains s)\<rparr>
      | x # rest \<Rightarrow>
          if isBusy s then s\<lparr>drains := Suc (drains s)\<rparr>
          else if has_active s (chatId x) then save now (s\<lparr>drains := Suc (drains s)\<rparr>)
          else if onBuildStart s
          then (save now (s\<lparr>drains := Suc (drains s), queue := rest,
                  activeBuilds := AList.update (chatId x)
                    \<lparr>startTime = now, lastActivity = now, b_buildData = buildData x,
                     b_type = item_type x, b_userName = userName x\<rparr> (activeBuilds s)\<rparr>))
               \<lparr>started := started s @ [chatId x]\<rparr>
          else processNext now (save now (s\<lparr>drains := Suc (drains s), queue := rest,
                  stats := (stats s)\<lparr>failed := failed (stats s) + 1\<rparr>\<rparr>)))"
  apply (subst processNext.simps)
  apply (cases "queue s")
   apply simp
  apply (simp add: acquire_def isBusy_def has_active_iff release.simps save_def
      update_conv' delete_update_same record_result_False)
  done

lemma release_unfold:
  "release c ok now s =
     (case map_of (activeBuilds s) c of
        None \<Rightarrow> s
      | Some b \<Rightarrow>
          processNext now (save now
            (s\<lparr>stats := record_result ok (now - startTime b) (stats s),
              activeBuilds := AList.delete c (activeBuilds s)\<rparr>)))"
  by (rule release.simps)

lemma processNext_induct' [case_names step]:
  assumes "\<And>s. (\<And>x rest. queue s = x # rest \<Longrightarrow> \<not> isBusy s \<Longrightarrow> \<not> has_active s (chatId x)
              \<Longrightarrow> \<not> onBuildStart s
              \<Longrightarrow> P (save now (s\<lparr>drains := Suc (drains s), queue := rest,
                     stats := (stats s)\<lparr>failed := failed (stats s) + 1\<rparr>\<rparr>))) \<Longrightarrow> P s"
  shows "P s"
proof (induction "length (queue s)" arbitrary: s rule: less_induct)
  case less
  show ?case
    by (rule assms, rule less) (simp add: save_def)
qed

lemma processNext_shape:
  "(\<exists>k\<le>length (queue s). (onBuildStart s \<longrightarrow> k = 0)
       \<and> queue (processNext now s) = drop k (queue s)
       \<and> activeBuilds (processNext now s) = activeBuilds s
       \<and> stats (processNext now s) = (stats s)\<lparr>failed := failed (stats s) + int k\<rparr>
       \<and> drains (processNext now s) = drains s + k + 1
       \<and> started (processNext now s) = started s)
   \<or> (\<exists>x rest. queue s = x # rest \<and> \<not> isBusy s \<and> \<not> has_active s (chatId x) \<and> onBuildStart s
       \<and> queue (processNext now s) = rest
       \<and> activeBuilds (processNext now s) = AList.update (chatId x)
            \<lparr>startTime = now, lastActivity = now, b_buildData = buildData x,
             b_type = item_type x, b_userName = userName x\<rparr> (activeBuilds s)
       \<and> stats (processNext now s) = stats s
       \<and> drains (processNext now s) = drains s + 1
       \<and> started (processNext now s) = started s @ [chatId x])"
proof (induction s rule: processNext_induct'[where now = now])
  case (step s)
  show ?case
  proof (cases "queue s")
    case Nil
    then have "processNext now s = s\<lparr>drains := Suc (drains s)\<rparr>"
      by (subst processNext_unfold) simp
    then show ?thesis using Nil by simp
  next
    case (Cons x rest)
    show ?thesis
    proof (cases "isBusy s")
      case True
      then have "processNext now s = s\<lparr>drains := Suc (drains s)\<rparr>"
        using Cons by (subst processNext_unfold) simp
      then show ?thesis by (intro disjI1 exI[of _ 0]) simp
    next
      case nb: False
      show ?thesis
      proof (cases "has_active s (chatId x)")
        case True
        then have "processNext now s = save now (s\<lparr>drains := Suc (drains s)\<rparr>)"
          using Cons nb by (subst processNext_unfold) simp
        then show ?thesis by (intro disjI1 exI[of _ 0]) (simp add: save_def)
      next
        case na: False
        show ?thesis
        proof (cases "onBuildStart s")
          case True
          then have "processNext now s =
             (save now (s\<lparr>drains := Suc (drains s), queue := rest,
                  activeBuilds := AList.update (chatId x)
                    \<lparr>startTime = now, lastActivity = now, b_buildData = buildData x,
                     b_type = item_type x, b_userName = userName x\<rparr> (activeBuilds s)\<rparr>))
               \<lparr>started := started s @ [chatId x]\<rparr>"
            using Cons nb na by (subst processNext_unfold) simp
          then show ?thesis using Cons nb na True
            by (intro disjI2) (simp add: save_def)
        next
          case False
          let ?s1 = "save now (s\<lparr>drains := Suc (drains s), queue := rest,
                  stats := (stats s)\<lparr>failed := failed (stats s) + 1\<rparr>\<rparr>)"
          have eq: "processNext now s = processNext now ?s1"
            using Cons nb na False by (subst processNext_unfold) simp
          have f1: "\<not> onBuildStart ?s1" "queue ?s1 = rest" "activeBuilds ?s1 = activeBuilds s"
            "stats ?s1 = (stats s)\<lparr>failed := failed (stats s) + 1\<rparr>" "drains ?s1 = Suc (drains s)"
            "started ?s1 = started s"
            using False by (simp_all add: save_def)
          from step[OF Cons nb na False] f1(1)
          obtain k where k: "k \<le> length (queue ?s1)"
            "queue (processNext now ?s1) = drop k (queue ?s1)"
            "activeBuilds (processNext now ?s1) = activeBuilds ?s1"
            "stats (processNext now ?s1) = (stats ?s1)\<lparr>failed := failed (stats ?s1) + int k\<rparr>"
            "drains (processNext now ?s1) = drains ?s1 + k + 1"
            "started (processNext now ?s1) = started ?s1"
            by blast
          show ?thesis
            apply (rule disjI1)
            apply (rule exI[of _ "Suc k"])
            using k False Cons unfolding eq f1
            apply simp
            done
        qed
      qed
    qed
  qed
qed


lemma processNext_config:
  "maxConcurrent (processNext now s) = maxConcurrent s
   \<and> adminIds (processNext now s) = adminIds s
   \<and> onBuildStart (processNext now s) = onBuildStart s
   \<and> fs_writable (processNext now s) = fs_writable s"
proof (induction s rule: processNext_induct'[where now = now])
  case (step s)
  note eq = processNext_unfold[of now s]
  show ?case
  proof (cases "queue s")
    case Nil
    then show ?thesis by (simp add: eq)
  next
    case (Cons x rest)
    then show ?thesis using step[OF Cons] by (simp add: eq)
  qed
qed

lemmas processNext_maxConcurrent [simp] = processNext_config[THEN conjunct1]
lemmas processNext_adminIds [simp] = processNext_config[THEN conjunct2, THEN conjunct1]
lemmas processNext_onBuildStart [simp] = processNext_config[THEN conjunct2, THEN conjunct2, THEN conjunct1]
lemmas processNext_fs_writable [simp] = processNext_config[THEN conjunct2, THEN conjunct2, THEN conjunct2]

lemma persisted_save: "fs_writable t \<Longrightarrow> persisted (save now t)"
  by (simp add: persisted_def save_def)

lemma persisted_drains: "persisted (t\<lparr>drains := n\<rparr>) = persisted t"
  by (simp add: persisted_def split: qfile.splits)

lemma persisted_started: "persisted (t\<lparr>started := n\<rparr>) = persisted t"
  by (simp add: persisted_def split: qfile.splits)

lemma processNext_persisted:
  "fs_writable s \<Longrightarrow> persisted s \<Longrightarrow> persisted (processNext now s)"
proof (induction s rule: processNext_induct'[where now = now])
  case (step s)
  note eq = processNext_unfold[of now s]
  show ?case
  proof (cases "queue s")
    case Nil
    then show ?thesis using step.prems by (simp add: eq persisted_drains)
  next
    case (Cons x rest)
    then show ?thesis using step.IH[OF Cons] step.prems
      by (simp add: eq persisted_drains persisted_started persisted_save)
  qed
qed

text \<open>processNext and the invariants\<close>

lemma length_update_new:
  "k \<notin> fst ` set al \<Longrightarrow> length (AList.update k v al) = Suc (length al)"
  by (induction al) auto

lemma processNext_within_capacity:
  "within_capacity s \<Longrightarrow> within_capacity (processNext now s)"
  using processNext_shape[of s now]
  by (auto simp: within_capacity_def isBusy_def has_active_iff length_update_new)

lemma processNext_distinct_active:
  "distinct (active_ids s) \<Longrightarrow> distinct (active_ids (processNext now s))"
  using processNext_shape[of s now]
  by (auto simp: active_ids_def distinct_update)

lemma processNext_no_duplicate_pending:
  "no_duplicate_pending s \<Longrightarrow> no_duplicate_pending (processNext now s)"
  using processNext_shape[of s now]
  by (auto simp: no_duplicate_pending_def pending_ids_def simp flip: drop_map)

lemma processNext_no_dual_occupancy:
  assumes "no_duplicate_pending s" "no_dual_occupancy s"
  shows "no_dual_occupancy (processNext now s)"
proof -
  from processNext_shape[of s now] show ?thesis
  proof (elim disjE exE conjE)
    fix k
    assume "queue (processNext now s) = drop k (queue s)"
      "activeBuilds (processNext now s) = activeBuilds s"
    moreover have "set (map chatId (drop k (queue s))) \<subseteq> set (map chatId (queue s))"
      by (metis drop_map set_drop_subset)
    ultimately show ?thesis using assms(2)
      by (auto simp: no_dual_occupancy_def pending_ids_def active_ids_def)
  next
    fix x rest
    assume a: "queue s = x # rest" "queue (processNext now s) = rest"
      "activeBuilds (processNext now s) = AList.update (chatId x)
            \<lparr>startTime = now, lastActivity = now, b_buildData = buildData x,
             b_type = item_type x, b_userName = userName x\<rparr> (activeBuilds s)"
    show ?thesis using assms a
      by (auto simp: no_dual_occupancy_def no_duplicate_pending_def pending_ids_def
          active_ids_def dom_update)
  qed
qed

lemma sorted_wrt_two_bucket:
  "two_bucket q \<longleftrightarrow> sorted_wrt (\<lambda>x y. priority y \<longrightarrow> priority x) q"
proof (induction q)
  case Nil
  then show ?case by (simp add: two_bucket_def)
next
  case (Cons x q)
  have aux: "sorted_wrt (\<lambda>x y. priority y \<longrightarrow> priority x) q" if "\<forall>y\<in>set q. \<not> priority y"
    for q :: "'a item list"
    using that by (induction q) auto
  show ?case using Cons aux[of q]
    by (auto simp: two_bucket_def list_all_iff)
qed

lemma processNext_two_bucket:
  "two_bucket (queue s) \<Longrightarrow> two_bucket (queue (processNext now s))"
  using processNext_shape[of s now]
  by (auto simp: sorted_wrt_two_bucket sorted_wrt_drop)


text \<open>release\<close>

lemma release_config [simp]:
  "maxConcurrent (release c ok now s) = maxConcurrent s"
  "adminIds (release c ok now s) = adminIds s"
  "onBuildStart (release c ok now s) = onBuildStart s"
  "fs_writable (release c ok now s) = fs_writable s"
  by (simp_all add: release.simps split: option.splits)

lemma release_within_capacity:
  "within_capacity s \<Longrightarrow> within_capacity (release c ok now s)"
proof (cases "map_of (activeBuilds s) c")
  case None
  then show "within_capacity s \<Longrightarrow> ?thesis" by (simp add: release.simps)
next
  case (Some b)
  assume "within_capacity s"
  then have "within_capacity (save now (s\<lparr>stats := record_result ok (now - startTime b) (stats s),
              activeBuilds := AList.delete c (activeBuilds s)\<rparr>))"
    using length_delete_le[of c "activeBuilds s"] by (simp add: within_capacity_def)
  then show ?thesis using Some by (simp add: release.simps processNext_within_capacity)
qed

lemma release_distinct_active:
  "distinct (active_ids s) \<Longrightarrow> distinct (active_ids (release c ok now s))"
proof (cases "map_of (activeBuilds s) c")
  case None
  then show "distinct (active_ids s) \<Longrightarrow> ?thesis" by (simp add: release.simps)
next
  case (Some b)
  assume "distinct (active_ids s)"
  then have "distinct (active_ids (save now (s\<lparr>stats := record_result ok (now - startTime b) (stats s),
              activeBuilds := AList.delete c (activeBuilds s)\<rparr>)))"
    by (simp add: active_ids_def distinct_delete)
  then show ?thesis using Some by (simp add: release.simps processNext_distinct_active)
qed

lemma release_no_duplicate_pending:
  "no_duplicate_pending s \<Longrightarrow> no_duplicate_pending (release c ok now s)"
proof (cases "map_of (activeBuilds s) c")
  case None
  then show "no_duplicate_pending s \<Longrightarrow> ?thesis" by (simp add: release.simps)
next
  case (Some b)
  assume "no_duplicate_pending s"
  then have "no_duplicate_pending (save now (s\<lparr>stats := record_result ok (now - startTime b) (stats s),
              activeBuilds := AList.delete c (activeBuilds s)\<rparr>))"
    by (simp add: no_duplicate_pending_def pending_ids_def)
  then show ?thesis using Some by (simp add: release.simps processNext_no_duplicate_pending)
qed

lemma release_no_dual_occupancy:
  assumes "no_duplicate_pending s" "no_dual_occupancy s"
  shows "no_dual_occupancy (release c ok now s)"
proof (cases "map_of (activeBuilds s) c")
  case None
  then show ?thesis using assms by (simp add: release.simps)
next
  case (Some b)
  let ?t = "save now (s\<lparr>stats := record_result ok (now - startTime b) (stats s),
              activeBuilds := AList.delete c (activeBuilds s)\<rparr>)"
  have "no_duplicate_pending ?t"
    using assms(1) by (simp add: no_duplicate_pending_def pending_ids_def)
  moreover have "no_dual_occupancy ?t"
    using assms(2) dom_delete_subset[of c "activeBuilds s"]
    by (simp add: no_dual_occupancy_def pending_ids_def active_ids_def) blast
  ultimately show ?thesis using Some by (simp add: release.simps processNext_no_dual_occupancy)
qed

lemma release_two_bucket:
  "two_bucket (queue s) \<Longrightarrow> two_bucket (queue (release c ok now s))"
  by (cases "map_of (activeBuilds s) c") (simp_all add: release.simps processNext_two_bucket)

lemma fold_release_inv:
  assumes "\<And>c s. I s \<Longrightarrow> I (release c ok now s)"
  shows "I s \<Longrightarrow> I (fold (\<lambda>c. release c ok now) cs s)"
  by (induction cs arbitrary: s) (simp_all add: assms)

lemma fold_release_config [simp]:
  "maxConcurrent (fold (\<lambda>c. release c ok now) cs s) = maxConcurrent s"
  "onBuildStart (fold (\<lambda>c. release c ok now) cs s) = onBuildStart s"
  by (induction cs arbitrary: s) simp_all

text \<open>the queue: removal and insertion\<close>

lemma findIndex_None: "findIndex c q = None \<longleftrightarrow> c \<notin> set (map chatId q)"
  by (induction q) (auto split: option.splits)

lemma findIndex_remove1:
  "findIndex c q = Some i \<Longrightarrow>
     map chatId (take i q) @ map chatId (drop (Suc i) q) = remove1 c (map chatId q)"
  by (induction q arbitrary: i) (auto split: option.splits if_splits)

lemma findIndex_sublist:
  "findIndex c q = Some i \<Longrightarrow> sorted_wrt R q \<Longrightarrow> sorted_wrt R (take i q @ drop (Suc i) q)"
  by (induction q arbitrary: i) (auto split: option.splits if_splits dest!: in_set_takeD in_set_dropD)

lemma removeFromQueue_sel [simp]:
  "maxConcurrent (snd (removeFromQueue c now s)) = maxConcurrent s"
  "adminIds (snd (removeFromQueue c now s)) = adminIds s"
  "activeBuilds (snd (removeFromQueue c now s)) = activeBuilds s"
  "stats (snd (removeFromQueue c now s)) = stats s"
  "onBuildStart (snd (removeFromQueue c now s)) = onBuildStart s"
  "fs_writable (snd (removeFromQueue c now s)) = fs_writable s"
  "started (snd (removeFromQueue c now s)) = started s"
  "drains (snd (removeFromQueue c now s)) = drains s"
  by (simp_all add: removeFromQueue_def split: option.splits)

lemma removeFromQueue_pending_ids:
  "pending_ids (snd (removeFromQueue c now s)) = remove1 c (pending_ids s)"
  by (auto simp: removeFromQueue_def pending_ids_def findIndex_remove1 findIndex_None
      remove1_idem split: option.splits)

lemma removeFromQueue_two_bucket:
  "two_bucket (queue s) \<Longrightarrow> two_bucket (queue (snd (removeFromQueue c now s)))"
  by (auto simp: removeFromQueue_def sorted_wrt_two_bucket findIndex_sublist split: option.splits)

lemma insertIndex_takeWhile: "insertIndex q i = i + length (takeWhile priority q)"
  by (induction q arbitrary: i) auto

lemma enqueue_priority:
  "priority x \<Longrightarrow> enqueue x q = takeWhile priority q @ x # dropWhile priority q"
  by (simp add: enqueue_def splice_in_def insertIndex_takeWhile
      takeWhile_eq_take[symmetric] dropWhile_eq_drop[symmetric])

lemma enqueue_plain: "\<not> priority x \<Longrightarrow> enqueue x q = q @ [x]"
  by (simp add: enqueue_def)

lemma set_enqueue: "set (enqueue x q) = insert x (set q)"
proof (cases "priority x")
  case True
  have "set q = set (takeWhile priority q) \<union> set (dropWhile priority q)"
    by (metis set_append takeWhile_dropWhile_id)
  then show ?thesis using True by (auto simp: enqueue_priority)
next
  case False
  then show ?thesis by (simp add: enqueue_plain)
qed

lemma ids_enqueue:
  "set (map chatId (enqueue x q)) = insert (chatId x) (set (map chatId q))"
  by (simp add: set_enqueue)

lemma distinct_ids_enqueue:
  "distinct (map chatId (enqueue x q)) \<longleftrightarrow> chatId x \<notin> set (map chatId q) \<and> distinct (map chatId q)"
proof (cases "priority x")
  case True
  have "map chatId q = map chatId (takeWhile priority q) @ map chatId (dropWhile priority q)"
    by (metis map_append takeWhile_dropWhile_id)
  then show ?thesis using True by (auto simp: enqueue_priority)
next
  case False
  then show ?thesis by (auto simp: enqueue_plain)
qed

lemma two_bucket_enqueue: "two_bucket q \<Longrightarrow> two_bucket (enqueue x q)"
proof (cases "priority x")
  case True
  assume "two_bucket q"
  then have "sorted_wrt (\<lambda>x y. priority y \<longrightarrow> priority x) (takeWhile priority q @ dropWhile priority q)"
    by (simp add: sorted_wrt_two_bucket)
  then show ?thesis using True
    by (auto simp: sorted_wrt_two_bucket enqueue_priority sorted_wrt_append dest: set_takeWhileD)
next
  case False
  assume "two_bucket q"
  then show ?thesis using False
    by (auto simp: sorted_wrt_two_bucket enqueue_plain sorted_wrt_append)
qed


text \<open>addToQueue\<close>

lemma addToQueue_shape:
  "maxConcurrent (snd (addToQueue c bd ty un now s)) = maxConcurrent s
   \<and> onBuildStart (snd (addToQueue c bd ty un now s)) = onBuildStart s
   \<and> stats (snd (addToQueue c bd ty un now s)) = (stats s)\<lparr>total := total (stats s) + 1\<rparr>
   \<and> (if \<not> isBusy s \<and> \<not> has_active s c
       then fst (addToQueue c bd ty un now s) = Immediate
          \<and> queue (snd (addToQueue c bd ty un now s)) = queue (snd (removeFromQueue c now s))
          \<and> activeBuilds (snd (addToQueue c bd ty un now s)) = AList.update c
               \<lparr>startTime = now, lastActivity = now, b_buildData = bd, b_type = ty,
                b_userName = un\<rparr> (activeBuilds s)
       else queue (snd (addToQueue c bd ty un now s))
              = enqueue (queueItem c bd ty un (isAdmin s c) now) (queue (snd (removeFromQueue c now s)))
          \<and> activeBuilds (snd (addToQueue c bd ty un now s)) = activeBuilds s)"
  by (simp add: addToQueue_def Let_def acquire_def addPending_def isBusy_def has_active_def
      isAdmin_def)

lemma length_map_entry: "length (AList.map_entry k f xs) = length xs"
  by (induction xs) auto

lemma keys_map_entry: "map fst (AList.map_entry k f xs) = map fst xs"
  by (induction xs) auto

lemma updateActivity_sel [simp]:
  "maxConcurrent (updateActivity co now s) = maxConcurrent s"
  "queue (updateActivity co now s) = queue s"
  "stats (updateActivity co now s) = stats s"
  "onBuildStart (updateActivity co now s) = onBuildStart s"
  "length (activeBuilds (updateActivity co now s)) = length (activeBuilds s)"
  "active_ids (updateActivity co now s) = active_ids s"
  by (auto simp: updateActivity_def length_map_entry active_ids_def comp_def keys_map_entry
      split: option.splits)


text \<open>every call keeps the capacity bound and the keys of the registry distinct\<close>

lemma step_maxConcurrent [simp]: "maxConcurrent (step now c s) = maxConcurrent s"
  by (cases c)
     (simp_all add: addToQueue_shape acquire_def checkStuckBuilds_def forceRelease_def
       resetStats_def clearQueue_def split: option.splits)

lemma step_within_capacity: "within_capacity s \<Longrightarrow> within_capacity (step now c s)"
proof (cases c)
  case (Submit c' bd ty un)
  assume "within_capacity s"
  then show ?thesis using Submit addToQueue_shape[of c' bd ty un now s]
    by (auto simp: within_capacity_def isBusy_def has_active_iff length_update_new
        split: if_splits)
next
  case (Reserve c' bd ty un)
  assume "within_capacity s"
  then show ?thesis using Reserve
    by (auto simp: within_capacity_def acquire_def has_active_iff length_update_new)
next
  case (Release c' ok)
  assume "within_capacity s"
  then show ?thesis using Release by (simp add: release_within_capacity)
next
  case ProcessNext
  assume "within_capacity s"
  then show ?thesis using ProcessNext by (simp add: processNext_within_capacity)
next
  case Sweep
  assume "within_capacity s"
  then show ?thesis using Sweep
    by (simp add: checkStuckBuilds_def fold_release_inv release_within_capacity)
next
  case (ForceRelease co)
  assume a: "within_capacity s"
  have 1: "within_capacity (s\<lparr>activeBuilds := AList.delete k (activeBuilds s)\<rparr>)" for k
    using a length_delete_le[of k "activeBuilds s"] by (simp add: within_capacity_def)
  have 2: "within_capacity (s\<lparr>activeBuilds := []\<rparr>)"
    using a by (simp add: within_capacity_def)
  have 3: "within_capacity (save now t) = within_capacity t" for t :: "'a state"
    by (simp add: within_capacity_def)
  show ?thesis using ForceRelease a 1 2
    by (simp add: forceRelease_def 3 processNext_within_capacity split: option.splits)
qed (simp_all add: within_capacity_def removeFromQueue_def resetStats_def clearQueue_def
      split: option.splits)

lemma step_distinct_active: "distinct (active_ids s) \<Longrightarrow> distinct (active_ids (step now c s))"
proof (cases c)
  case (Submit c' bd ty un)
  assume "distinct (active_ids s)"
  then show ?thesis using Submit addToQueue_shape[of c' bd ty un now s]
    by (auto simp: active_ids_def distinct_update split: if_splits)
next
  case (Reserve c' bd ty un)
  assume "distinct (active_ids s)"
  then show ?thesis using Reserve
    by (auto simp: active_ids_def acquire_def distinct_update)
next
  case (Release c' ok)
  assume "distinct (active_ids s)"
  then show ?thesis using Release by (simp add: release_distinct_active)
next
  case ProcessNext
  assume "distinct (active_ids s)"
  then show ?thesis using ProcessNext by (simp add: processNext_distinct_active)
next
  case Sweep
  assume "distinct (active_ids s)"
  then show ?thesis using Sweep
    by (simp add: checkStuckBuilds_def fold_release_inv[where I = "\<lambda>s. distinct (active_ids s)"]
        release_distinct_active)
next
  case (ForceRelease co)
  assume a: "distinct (active_ids s)"
  have 1: "distinct (active_ids (s\<lparr>activeBuilds := AList.delete k (activeBuilds s)\<rparr>))" for k
    using a by (simp add: active_ids_def distinct_delete)
  have 2: "distinct (active_ids (s\<lparr>activeBuilds := []\<rparr>))"
    by (simp add: active_ids_def)
  have 3: "active_ids (save now t) = active_ids t" for t :: "'a state"
    by (simp add: active_ids_def)
  show ?thesis using ForceRelease a 1 2
    by (simp add: forceRelease_def 3 processNext_distinct_active split: option.splits)
next
  case (Heartbeat co)
  assume "distinct (active_ids s)"
  then show ?thesis using Heartbeat by simp
qed (simp_all add: active_ids_def removeFromQueue_def resetStats_def clearQueue_def
      split: option.splits)

lemma run_maxConcurrent [simp]: "maxConcurrent (run cs s) = maxConcurrent s"
  by (induction cs arbitrary: s) simp_all

lemma run_within_capacity: "within_capacity s \<Longrightarrow> within_capacity (run cs s)"
  by (induction cs arbitrary: s) (simp_all add: step_within_capacity)

lemma run_distinct_active: "distinct (active_ids s) \<Longrightarrow> distinct (active_ids (run cs s))"
  by (induction cs arbitrary: s) (simp_all add: step_distinct_active)

lemma clamp_range: "1 \<le> clamp_1_4 x \<and> clamp_1_4 x \<le> 4"
  by (cases x) auto

lemma BuildQueue_sel [simp]:
  "maxConcurrent (BuildQueue e) = clamp_1_4 (or_one (MAX_CONCURRENT_BUILDS e))"
  "activeBuilds (BuildQueue e) = []"
  "onBuildStart (BuildQueue e) = False"
  "adminIds (BuildQueue e) = ADMIN_IDS e"
  by (simp_all add: BuildQueue_def load_def split: qfile.splits)


text \<open>every call keeps the queue free of duplicates\<close>

lemma chatId_queueItem [simp]: "chatId (queueItem c bd ty un pr now) = c"
  by (simp add: queueItem_def)

lemma priority_queueItem [simp]: "priority (queueItem c bd ty un pr now) = pr"
  by (simp add: queueItem_def)

lemma hasPendingBuild_iff: "hasPendingBuild s c \<longleftrightarrow> c \<in> set (pending_ids s)"
  by (auto simp: hasPendingBuild_def pending_ids_def list_ex_iff)

lemma has_active_ids: "has_active s c \<longleftrightarrow> c \<in> set (active_ids s)"
  by (simp add: has_active_iff active_ids_def)

lemma pending_ids_simps [simp]:
  "pending_ids (save now s) = pending_ids s"
  "pending_ids (s\<lparr>activeBuilds := a\<rparr>) = pending_ids s"
  "pending_ids (s\<lparr>stats := st\<rparr>) = pending_ids s"
  "pending_ids (s\<lparr>onBuildStart := b\<rparr>) = pending_ids s"
  "pending_ids (s\<lparr>fs_writable := b\<rparr>) = pending_ids s"
  "pending_ids (s\<lparr>queue := q\<rparr>) = map chatId q"
  by (simp_all add: pending_ids_def)

lemma active_ids_simps [simp]:
  "active_ids (save now s) = active_ids s"
  "active_ids (s\<lparr>queue := q\<rparr>) = active_ids s"
  "active_ids (s\<lparr>stats := st\<rparr>) = active_ids s"
  "active_ids (s\<lparr>onBuildStart := b\<rparr>) = active_ids s"
  "active_ids (s\<lparr>fs_writable := b\<rparr>) = active_ids s"
  "active_ids (s\<lparr>activeBuilds := a\<rparr>) = map fst a"
  by (simp_all add: active_ids_def)

lemma addToQueue_ids:
  "if \<not> isBusy s \<and> \<not> has_active s c
   then pending_ids (snd (addToQueue c bd ty un now s)) = remove1 c (pending_ids s)
      \<and> set (active_ids (snd (addToQueue c bd ty un now s))) = insert c (set (active_ids s))
   else set (pending_ids (snd (addToQueue c bd ty un now s))) = insert c (set (remove1 c (pending_ids s)))
      \<and> (distinct (pending_ids (snd (addToQueue c bd ty un now s)))
           \<longleftrightarrow> c \<notin> set (remove1 c (pending_ids s)) \<and> distinct (remove1 c (pending_ids s)))
      \<and> active_ids (snd (addToQueue c bd ty un now s)) = active_ids s"
proof -
  let ?q1 = "queue (snd (removeFromQueue c now s))"
  let ?r = "snd (addToQueue c bd ty un now s)"
  have ids1: "map chatId ?q1 = remove1 c (pending_ids s)"
    using removeFromQueue_pending_ids[of c now s] by (simp add: pending_ids_def)
  show ?thesis
  proof (cases "\<not> isBusy s \<and> \<not> has_active s c")
    case True
    then have "queue ?r = ?q1" "activeBuilds ?r = AList.update c
               \<lparr>startTime = now, lastActivity = now, b_buildData = bd, b_type = ty,
                b_userName = un\<rparr> (activeBuilds s)"
      using addToQueue_shape[of c bd ty un now s] by simp_all
    then show ?thesis using True ids1
      by (simp add: pending_ids_def active_ids_def dom_update)
  next
    case False
    then have "queue ?r = enqueue (queueItem c bd ty un (isAdmin s c) now) ?q1"
      "activeBuilds ?r = activeBuilds s"
      using addToQueue_shape[of c bd ty un now s] by auto
    then have "pending_ids ?r = map chatId (enqueue (queueItem c bd ty un (isAdmin s c) now) ?q1)"
      "active_ids ?r = active_ids s"
      by (simp_all add: pending_ids_def active_ids_def)
    then show ?thesis using False ids1
      by (simp only: ids_enqueue distinct_ids_enqueue chatId_queueItem if_False simp_thms)
  qed
qed

lemma step_no_duplicate_pending:
  "no_duplicate_pending s \<Longrightarrow> no_duplicate_pending (step now c s)"
proof (cases c)
  case (Submit c' bd ty un)
  assume "no_duplicate_pending s"
  then show ?thesis using Submit addToQueue_ids[of s c' bd ty un now]
    by (auto simp: no_duplicate_pending_def split: if_splits)
next
  case (Withdraw c')
  assume "no_duplicate_pending s"
  then show ?thesis using Withdraw
    by (simp add: no_duplicate_pending_def removeFromQueue_pending_ids)
next
  case (Reserve c' bd ty un)
  assume "no_duplicate_pending s"
  then show ?thesis using Reserve
    by (simp add: no_duplicate_pending_def acquire_def)
next
  case (Release c' ok)
  assume "no_duplicate_pending s"
  then show ?thesis using Release by (simp add: release_no_duplicate_pending)
next
  case ProcessNext
  assume "no_duplicate_pending s"
  then show ?thesis using ProcessNext by (simp add: processNext_no_duplicate_pending)
next
  case Sweep
  assume "no_duplicate_pending s"
  then show ?thesis using Sweep
    by (simp add: checkStuckBuilds_def fold_release_inv release_no_duplicate_pending)
next
  case (Heartbeat co)
  assume "no_duplicate_pending s"
  then show ?thesis using Heartbeat by (simp add: no_duplicate_pending_def pending_ids_def)
next
  case (ForceRelease co)
  assume a: "no_duplicate_pending s"
  have 1: "no_duplicate_pending (s\<lparr>activeBuilds := x\<rparr>)" for x
    using a by (simp add: no_duplicate_pending_def)
  have 3: "no_duplicate_pending (save now t) = no_duplicate_pending t" for t :: "'a state"
    by (simp add: no_duplicate_pending_def)
  show ?thesis using ForceRelease a 1
    by (simp add: forceRelease_def 3 processNext_no_duplicate_pending split: option.splits)
qed (simp_all add: no_duplicate_pending_def resetStats_def clearQueue_def)

lemma step_no_dual_occupancy:
  assumes "no_duplicate_pending s" "no_dual_occupancy s" "apart c s"
  shows "no_dual_occupancy (step now c s)"
proof (cases c)
  case (Submit c' bd ty un)
  then have "\<not> has_active s c'" using assms(3) by simp
  then show ?thesis using Submit assms(1,2) addToQueue_ids[of s c' bd ty un now]
    by (auto simp: no_duplicate_pending_def no_dual_occupancy_def has_active_ids
        split: if_splits dest: notin_set_remove1)
next
  case (Withdraw c')
  then show ?thesis using assms(2) set_remove1_subset[of c' "pending_ids s"]
    by (auto simp: no_dual_occupancy_def removeFromQueue_pending_ids active_ids_def)
next
  case (Reserve c' bd ty un)
  then have "c' \<notin> set (pending_ids s)" using assms(3) by (simp add: hasPendingBuild_iff)
  then show ?thesis using Reserve assms(2)
    by (auto simp: no_dual_occupancy_def acquire_def dom_update active_ids_def)
next
  case (Release c' ok)
  then show ?thesis using assms by (simp add: release_no_dual_occupancy)
next
  case ProcessNext
  then show ?thesis using assms by (simp add: processNext_no_dual_occupancy)
next
  case Sweep
  have "no_duplicate_pending (fold (\<lambda>c. release c False now) cs s)
        \<and> no_dual_occupancy (fold (\<lambda>c. release c False now) cs s)" for cs
    using assms(1,2)
    by (rule_tac fold_release_inv[where I = "\<lambda>s. no_duplicate_pending s \<and> no_dual_occupancy s"])
       (simp_all add: release_no_duplicate_pending release_no_dual_occupancy)
  then show ?thesis using Sweep assms(2) by (simp add: checkStuckBuilds_def)
next
  case (Heartbeat co)
  then show ?thesis using assms(2) by (simp add: no_dual_occupancy_def pending_ids_def)
next
  case (ForceRelease co)
  have 0: "no_duplicate_pending (s\<lparr>activeBuilds := x\<rparr>)" for x
    using assms(1) by (simp add: no_duplicate_pending_def)
  have 1: "no_dual_occupancy (s\<lparr>activeBuilds := AList.delete k (activeBuilds s)\<rparr>)" for k
    using assms(2) dom_delete_subset[of k "activeBuilds s"]
    by (simp add: no_dual_occupancy_def active_ids_def) blast
  have 2: "no_dual_occupancy (s\<lparr>activeBuilds := []\<rparr>)"
    by (simp add: no_dual_occupancy_def)
  have 3: "no_dual_occupancy (save now t) = no_dual_occupancy t" for t :: "'a state"
    by (simp add: no_dual_occupancy_def)
  show ?thesis using ForceRelease assms(2) 0 1 2
    by (simp add: forceRelease_def 3 processNext_no_dual_occupancy split: option.splits)
next
  case ResetStats
  then show ?thesis using assms(2) by (simp add: no_dual_occupancy_def resetStats_def)
next
  case ClearQueue
  then show ?thesis by (simp add: no_dual_occupancy_def clearQueue_def)
next
  case (SetOnBuildStart b)
  then show ?thesis using assms(2) by (simp add: no_dual_occupancy_def)
next
  case (SetWritable b)
  then show ?thesis using assms(2) by (simp add: no_dual_occupancy_def)
qed

lemma run_no_duplicate_pending:
  "no_duplicate_pending s \<Longrightarrow> no_duplicate_pending (run cs s)"
  by (induction cs arbitrary: s) (simp_all add: step_no_duplicate_pending)

lemma run_no_dual_occupancy:
  "no_duplicate_pending s \<Longrightarrow> no_dual_occupancy s \<Longrightarrow> all_apart cs s
   \<Longrightarrow> no_dual_occupancy (run cs s)"
  by (induction cs arbitrary: s)
     (simp_all add: step_no_duplicate_pending step_no_dual_occupancy)

text \<open>every call keeps the two-bucket order\<close>

lemma step_two_bucket: "two_bucket (queue s) \<Longrightarrow> two_bucket (queue (step now c s))"
proof (cases c)
  case (Submit c' bd ty un)
  assume "two_bucket (queue s)"
  then show ?thesis using Submit addToQueue_shape[of c' bd ty un now s]
    by (auto simp: removeFromQueue_two_bucket two_bucket_enqueue split: if_splits)
next
  case (Withdraw c')
  assume "two_bucket (queue s)"
  then show ?thesis using Withdraw by (simp add: removeFromQueue_two_bucket)
next
  case (Reserve c' bd ty un)
  assume "two_bucket (queue s)"
  then show ?thesis using Reserve by (simp add: acquire_def)
next
  case (Release c' ok)
  assume "two_bucket (queue s)"
  then show ?thesis using Release by (simp add: release_two_bucket)
next
  case ProcessNext
  assume "two_bucket (queue s)"
  then show ?thesis using ProcessNext by (simp add: processNext_two_bucket)
next
  case Sweep
  assume "two_bucket (queue s)"
  then show ?thesis using Sweep
    by (simp add: checkStuckBuilds_def fold_release_inv[where I = "\<lambda>s. two_bucket (queue s)"]
        release_two_bucket)
next
  case (ForceRelease co)
  assume a: "two_bucket (queue s)"
  then show ?thesis using ForceRelease
    by (simp add: forceRelease_def processNext_two_bucket split: option.splits)
next
  case ClearQueue
  then show ?thesis by (simp add: clearQueue_def two_bucket_def)
qed (simp_all add: resetStats_def)

lemma run_two_bucket: "two_bucket (queue s) \<Longrightarrow> two_bucket (queue (run cs s))"
  by (induction cs arbitrary: s) (simp_all add: step_two_bucket)




lemma filter_enqueue_priority:
  "two_bucket q \<Longrightarrow> priority x \<Longrightarrow> filter priority (enqueue x q) = filter priority q @ [x]"
proof -
  assume tb: "two_bucket q" and px: "priority x"
  have 1: "filter priority (dropWhile priority q) = []"
    using tb by (auto simp: two_bucket_def list_all_iff filter_empty_conv)
  have "filter priority q = filter priority (takeWhile priority q @ dropWhile priority q)"
    by simp
  also have "\<dots> = filter priority (takeWhile priority q)"
    by (simp only: filter_append 1 append_Nil2)
  finally show ?thesis using px 1 by (simp add: enqueue_priority)
qed

lemma filter_enqueue_other:
  "filter (\<lambda>y. \<not> priority y) (enqueue x q)
     = filter (\<lambda>y. \<not> priority y) q @ (if priority x then [] else [x])"
proof (cases "priority x")
  case True
  have "filter (\<lambda>y. \<not> priority y) q
      = filter (\<lambda>y. \<not> priority y) (takeWhile priority q @ dropWhile priority q)"
    by simp
  then show ?thesis using True by (simp add: enqueue_priority del: takeWhile_dropWhile_id)
next
  case False
  then show ?thesis by (simp add: enqueue_plain)
qed


text \<open>what one drain does to the statistics, the counters and the registry\<close>

lemma processNext_stats_callback:
  "onBuildStart s \<Longrightarrow> stats (processNext now s) = stats s \<and> drains (processNext now s) = drains s + 1"
  using processNext_shape[of s now] by auto

lemma processNext_stats:
  "success (stats (processNext now s)) = success (stats s)
   \<and> total (stats (processNext now s)) = total (stats s)
   \<and> totalTime (stats (processNext now s)) = totalTime (stats s)
   \<and> failed (stats (processNext now s)) = failed (stats s)
        + (if onBuildStart s then 0
           else int (length (queue s)) - int (length (queue (processNext now s))))
   \<and> int (drains (processNext now s)) = int (drains s) + 1
        + (if onBuildStart s then 0
           else int (length (queue s)) - int (length (queue (processNext now s))))
   \<and> length (queue (processNext now s)) \<le> length (queue s)"
  using processNext_shape[of s now] by auto

lemma processNext_entries:
  "map_of (activeBuilds s) c = Some b \<Longrightarrow> map_of (activeBuilds (processNext now s)) c = Some b"
  using processNext_shape[of s now]
  by (auto simp: update_conv' has_active_def)

lemma set_update_new:
  "k \<notin> fst ` set al \<Longrightarrow> set (AList.update k v al) = insert (k, v) (set al)"
  by (induction al) auto

lemma processNext_new_entries:
  "set (activeBuilds (processNext now s))
     \<subseteq> set (activeBuilds s) \<union> {kb. startTime (snd kb) = now \<and> lastActivity (snd kb) = now}"
  using processNext_shape[of s now]
  by (auto simp: has_active_iff set_update_new)

lemma processNext_active_ids:
  "set (active_ids (processNext now s)) \<subseteq> set (active_ids s) \<union> set (pending_ids s)"
  using processNext_shape[of s now]
  by (auto simp: active_ids_def pending_ids_def has_active_iff set_update_new)

lemma processNext_pending_ids:
  "set (pending_ids (processNext now s)) \<subseteq> set (pending_ids s)"
  using processNext_shape[of s now]
  by (auto simp: pending_ids_def dest!: in_set_dropD)

lemma processNext_blocked:
  "queue s = x # rest \<Longrightarrow> \<not> isBusy s \<Longrightarrow> has_active s (chatId x)
   \<Longrightarrow> processNext now s = save now (s\<lparr>drains := Suc (drains s)\<rparr>)"
  by (subst processNext_unfold) simp

lemma processNext_drains_all:
  "\<not> onBuildStart s \<Longrightarrow> activeBuilds s = [] \<Longrightarrow> 1 \<le> maxConcurrent s
   \<Longrightarrow> queue (processNext now s) = [] \<and> activeBuilds (processNext now s) = []"
proof (induction s rule: processNext_induct'[where now = now])
  case (step s)
  note eq = processNext_unfold[of now s]
  show ?case
  proof (cases "queue s")
    case Nil
    then show ?thesis using step.prems by (simp add: eq)
  next
    case (Cons x rest)
    have nb: "\<not> isBusy s" "\<not> has_active s (chatId x)"
      using step.prems by (simp_all add: isBusy_def has_active_def)
    show ?thesis using step.IH[OF Cons nb] step.prems Cons nb by (simp add: eq)
  qed
qed

text \<open>release of a running build\<close>

lemma release_active:
  "map_of (activeBuilds s) c = Some b \<Longrightarrow>
   release c ok now s = processNext now (save now
       (s\<lparr>stats := record_result ok (now - startTime b) (stats s),
         activeBuilds := AList.delete c (activeBuilds s)\<rparr>))"
  by (simp add: release.simps)

lemma release_inactive: "\<not> has_active s c \<Longrightarrow> release c ok now s = s"
  by (simp add: release.simps has_active_def)

lemma release_not_active_after:
  assumes "c \<notin> set (pending_ids s)"
  shows "\<not> has_active (release c ok now s) c"
proof (cases "map_of (activeBuilds s) c")
  case None
  then show ?thesis by (simp add: release.simps has_active_def)
next
  case (Some b)
  let ?t = "save now (s\<lparr>stats := record_result ok (now - startTime b) (stats s),
         activeBuilds := AList.delete c (activeBuilds s)\<rparr>)"
  have "c \<notin> set (active_ids ?t)" "c \<notin> set (pending_ids ?t)"
    using assms delete_notin_dom[of c "activeBuilds s"] by (simp_all add: active_ids_def)
  then have "c \<notin> set (active_ids (processNext now ?t))"
    using processNext_active_ids[of now ?t] by blast
  then show ?thesis using Some by (simp add: release_active has_active_ids)
qed

lemma release_other_entries:
  "c' \<noteq> c \<Longrightarrow> map_of (activeBuilds s) c' = Some b
   \<Longrightarrow> map_of (activeBuilds (release c ok now s)) c' = Some b"
  by (cases "map_of (activeBuilds s) c")
     (simp_all add: release.simps processNext_entries)

lemma release_new_entries:
  "set (activeBuilds (release c ok now s))
     \<subseteq> {kb \<in> set (activeBuilds s). fst kb \<noteq> c}
        \<union> {kb. startTime (snd kb) = now \<and> lastActivity (snd kb) = now}"
proof (cases "map_of (activeBuilds s) c")
  case None
  then have "c \<notin> fst ` set (activeBuilds s)" by (simp add: map_of_eq_None_iff)
  then show ?thesis using None by (force simp: release.simps)
next
  case (Some b)
  let ?t = "save now (s\<lparr>stats := record_result ok (now - startTime b) (stats s),
         activeBuilds := AList.delete c (activeBuilds s)\<rparr>)"
  have "set (activeBuilds ?t) = {kb \<in> set (activeBuilds s). fst kb \<noteq> c}"
    by (auto simp: AList.delete_eq)
  then show ?thesis using processNext_new_entries[of now ?t] Some
    by (simp add: release_active)
qed

lemma release_stats:
  assumes "map_of (activeBuilds s) c = Some b"
  shows "success (stats (release c ok now s)) = success (stats s) + (if ok then 1 else 0)
   \<and> totalTime (stats (release c ok now s)) = totalTime (stats s) + (if ok then now - startTime b else 0)
   \<and> total (stats (release c ok now s)) = total (stats s)
   \<and> failed (stats (release c ok now s)) = failed (stats s) + (if ok then 0 else 1)
        + (if onBuildStart s then 0
           else int (length (queue s)) - int (length (queue (release c ok now s))))
   \<and> int (drains (release c ok now s)) = int (drains s) + 1
        + (if onBuildStart s then 0
           else int (length (queue s)) - int (length (queue (release c ok now s))))
   \<and> length (queue (release c ok now s)) \<le> length (queue s)"
proof -
  let ?t = "save now (s\<lparr>stats := record_result ok (now - startTime b) (stats s),
         activeBuilds := AList.delete c (activeBuilds s)\<rparr>)"
  have r: "release c ok now s = processNext now ?t" using assms by (rule release_active)
  show ?thesis unfolding r using processNext_stats[of now ?t]
    by (simp add: record_result_def)
qed


text \<open>a sequence of failed releases, as the watchdog makes it\<close>

lemma fold_release_entries:
  "c' \<notin> set cs \<Longrightarrow> map_of (activeBuilds s) c' = Some b
   \<Longrightarrow> map_of (activeBuilds (fold (\<lambda>c. release c ok now) cs s)) c' = Some b"
  by (induction cs arbitrary: s) (auto simp: release_other_entries)

lemma fold_release_new_entries:
  "set (activeBuilds (fold (\<lambda>c. release c ok now) cs s))
     \<subseteq> {kb \<in> set (activeBuilds s). fst kb \<notin> set cs}
        \<union> {kb. startTime (snd kb) = now \<and> lastActivity (snd kb) = now}"
proof (induction cs arbitrary: s)
  case Nil
  then show ?case by auto
next
  case (Cons c cs)
  show ?case using Cons[of "release c ok now s"] release_new_entries[of c ok now s]
    by (simp add: subset_iff) blast
qed

lemma fold_release_failed:
  assumes "distinct cs" and "\<forall>c\<in>set cs. has_active s c"
  shows "failed (stats (fold (\<lambda>c. release c False now) cs s))
           = failed (stats s) + int (length cs)
             + (if onBuildStart s then 0
                else int (length (queue s))
                     - int (length (queue (fold (\<lambda>c. release c False now) cs s))))
         \<and> success (stats (fold (\<lambda>c. release c False now) cs s)) = success (stats s)
         \<and> total (stats (fold (\<lambda>c. release c False now) cs s)) = total (stats s)
         \<and> totalTime (stats (fold (\<lambda>c. release c False now) cs s)) = totalTime (stats s)
         \<and> length (queue (fold (\<lambda>c. release c False now) cs s)) \<le> length (queue s)"
  using assms
proof (induction cs arbitrary: s)
  case Nil
  then show ?case by simp
next
  case (Cons c cs)
  from Cons.prems obtain b where b: "map_of (activeBuilds s) c = Some b"
    by (auto simp: has_active_def)
  let ?s1 = "release c False now s"
  have keep: "\<forall>c'\<in>set cs. has_active ?s1 c'"
  proof
    fix c' assume c': "c' \<in> set cs"
    then have "c' \<noteq> c" using Cons.prems(1) by auto
    moreover obtain b' where "map_of (activeBuilds s) c' = Some b'"
      using Cons.prems(2) c' by (auto simp: has_active_def)
    ultimately show "has_active ?s1 c'"
      using release_other_entries[of c' c s b' False now] by (simp add: has_active_def)
  qed
  have d: "distinct cs" using Cons.prems(1) by simp
  note ih = Cons.IH[OF d keep]
  note st = release_stats[OF b, of False now]
  have ob: "onBuildStart ?s1 = onBuildStart s" by simp
  have f: "fold (\<lambda>c. release c False now) (c # cs) s = fold (\<lambda>c. release c False now) cs ?s1"
    by simp
  show ?case
  proof (cases "onBuildStart s")
    case True
    then show ?thesis unfolding f using ih st ob by simp
  next
    case False
    then show ?thesis unfolding f using ih st ob by simp
  qed
qed

lemma stuck_fresh: "startTime b = now \<Longrightarrow> lastActivity b = now \<Longrightarrow> \<not> stuck now b"
  by (simp add: stuck_def MAX_BUILD_TIME_def INACTIVITY_TIMEOUT_def)

lemma stuck_budgets:
  "lastActivity b \<noteq> 0 \<Longrightarrow>
   stuck now b \<longleftrightarrow> now - startTime b > MAX_BUILD_TIME \<or> now - lastActivity b > INACTIVITY_TIMEOUT"
  by (simp add: stuck_def)

lemma toRelease_iff:
  "c \<in> set (toRelease now s) \<longleftrightarrow> (\<exists>b. (c, b) \<in> set (activeBuilds s) \<and> stuck now b)"
  by (force simp: toRelease_def)

lemma toRelease_distinct: "distinct (active_ids s) \<Longrightarrow> distinct (toRelease now s)"
  by (simp add: toRelease_def active_ids_def distinct_map_filter)

lemma toRelease_entry:
  assumes "distinct (active_ids s)" "(c, b) \<in> set (activeBuilds s)"
  shows "c \<in> set (toRelease now s) \<longleftrightarrow> stuck now b"
proof
  assume "c \<in> set (toRelease now s)"
  then obtain b' where b': "(c, b') \<in> set (activeBuilds s)" "stuck now b'"
    by (auto simp: toRelease_iff)
  have "b' = b"
    using assms b'(1) by (auto simp: active_ids_def dest: eq_key_imp_eq_value)
  then show "stuck now b" using b'(2) by simp
next
  assume "stuck now b"
  then show "c \<in> set (toRelease now s)" using assms(2) by (auto simp: toRelease_iff)
qed

lemma checkStuckBuilds_fold:
  "checkStuckBuilds now s = fold (\<lambda>c. release c False now) (toRelease now s) s"
  by (cases "activeBuilds s") (simp_all add: checkStuckBuilds_def toRelease_def)

section \<open>The claims\<close>

subsection \<open>C1: one place per identity\<close>

text \<open>
  Claim C1, as the code has it. From a state without duplicates, after every sequence of
  calls no identity appears twice in the queue. No identity is both in the queue and in
  the registry as long as every call keeps them apart: \<open>addToQueue\<close> is not called for an
  identity that is running (it would be queued behind its own running build) and
  \<open>acquire\<close> is not called for an identity that is waiting.
\<close>

theorem occupancy_invariant:
  assumes "no_duplicate_pending s" and "no_dual_occupancy s"
  shows "no_duplicate_pending (run cs s)
         \<and> (all_apart cs s \<longrightarrow> no_dual_occupancy (run cs s))"
  using assms by (simp add: run_no_duplicate_pending run_no_dual_occupancy)

text \<open>
  C1 on a run through every kind of call from a fresh object: the hypotheses hold and
  so does the conclusion.
\<close>

theorem occupancy_invariant_witness:
  "no_duplicate_pending (BuildQueue demo_env) \<and> no_dual_occupancy (BuildQueue demo_env)
   \<and> all_apart mixed_calls (BuildQueue demo_env)
   \<and> no_duplicate_pending (run mixed_calls (BuildQueue demo_env))
   \<and> no_dual_occupancy (run mixed_calls (BuildQueue demo_env))"
proof -
  have h1: "no_duplicate_pending (BuildQueue demo_env)" by code_simp
  have h2: "no_dual_occupancy (BuildQueue demo_env)" by code_simp
  have h3: "all_apart mixed_calls (BuildQueue demo_env)" by code_simp
  show ?thesis using occupancy_invariant[OF h1 h2, of mixed_calls] h1 h2 h3 by blast
qed

text \<open>
  C1 as stated fails: with one slot, identity 7 submits and is started, submits again
  and is queued, since \<open>addToQueue\<close> takes the immediate path only when the identity is
  not running. It is then in the queue and in the registry. So is identity 4 when a
  slot is reserved for it while it waits, since \<open>acquire\<close> does not look at the queue.
\<close>

theorem dual_occupancy_counterexample:
  "pending_ids (run twice_calls (BuildQueue demo_env)) = [NumId 7]
   \<and> active_ids (run twice_calls (BuildQueue demo_env)) = [NumId 7]
   \<and> \<not> no_dual_occupancy (run twice_calls (BuildQueue demo_env))
   \<and> pending_ids (run reserve_waiting_calls (BuildQueue two_slot_env)) = [NumId 4]
   \<and> active_ids (run reserve_waiting_calls (BuildQueue two_slot_env)) = [NumId 3, NumId 4]
   \<and> \<not> no_dual_occupancy (run reserve_waiting_calls (BuildQueue two_slot_env))"
  by code_simp

subsection \<open>C2: the capacity bound\<close>

text \<open>
  Claim C2. After every sequence of calls on a constructed object (submissions and
  releases, and every other call too) the registry holds at most \<open>maxConcurrent\<close>
  builds under distinct keys. \<open>maxConcurrent\<close> is fixed by the configuration alone: an
  integer \<open>n\<close> other than 0 gives \<open>n\<close> itself when it lies in 1..4, 1 when it is below
  and 4 when it is above, that is \<open>max 1 (min n 4)\<close>; a missing or non-numeric value
  (\<open>NaN\<close>), 0 and \<open>-Infinity\<close> give 1; \<open>+Infinity\<close> gives 4. So it always lies in 1..4.
\<close>

theorem capacity_invariant:
  "int (length (activeBuilds (run cs (BuildQueue e)))) \<le> maxConcurrent (run cs (BuildQueue e))
   \<and> distinct (active_ids (run cs (BuildQueue e)))
   \<and> maxConcurrent (run cs (BuildQueue e))
       = (case MAX_CONCURRENT_BUILDS e of
            NaN \<Rightarrow> 1
          | NegInfinity \<Rightarrow> 1
          | Num n \<Rightarrow> (if n = 0 then 1 else if n < 1 then 1 else if 4 < n then 4 else n)
          | PosInfinity \<Rightarrow> 4)
   \<and> maxConcurrent (run cs (BuildQueue e))
       = (case MAX_CONCURRENT_BUILDS e of
            NaN \<Rightarrow> 1
          | NegInfinity \<Rightarrow> 1
          | Num n \<Rightarrow> (if n = 0 then 1 else max 1 (min n 4))
          | PosInfinity \<Rightarrow> 4)
   \<and> 1 \<le> maxConcurrent (run cs (BuildQueue e))
   \<and> maxConcurrent (run cs (BuildQueue e)) \<le> 4"
proof -
  have "within_capacity (BuildQueue e)"
    using clamp_range[of "or_one (MAX_CONCURRENT_BUILDS e)"] by (simp add: within_capacity_def)
  then have "within_capacity (run cs (BuildQueue e))"
    by (rule run_within_capacity)
  then have cap: "int (length (activeBuilds (run cs (BuildQueue e))))
      \<le> maxConcurrent (run cs (BuildQueue e))"
    by (simp add: within_capacity_def)
  have dist: "distinct (active_ids (run cs (BuildQueue e)))"
    by (rule run_distinct_active) (simp add: active_ids_def)
  have v1: "maxConcurrent (run cs (BuildQueue e))
       = (case MAX_CONCURRENT_BUILDS e of
            NaN \<Rightarrow> 1
          | NegInfinity \<Rightarrow> 1
          | Num n \<Rightarrow> (if n = 0 then 1 else if n < 1 then 1 else if 4 < n then 4 else n)
          | PosInfinity \<Rightarrow> 4)"
    by (cases "MAX_CONCURRENT_BUILDS e") auto
  have v2: "maxConcurrent (run cs (BuildQueue e))
       = (case MAX_CONCURRENT_BUILDS e of
            NaN \<Rightarrow> 1
          | NegInfinity \<Rightarrow> 1
          | Num n \<Rightarrow> (if n = 0 then 1 else max 1 (min n 4))
          | PosInfinity \<Rightarrow> 4)"
    by (cases "MAX_CONCURRENT_BUILDS e") auto
  have rng: "1 \<le> maxConcurrent (run cs (BuildQueue e))" "maxConcurrent (run cs (BuildQueue e)) \<le> 4"
    using clamp_range[of "or_one (MAX_CONCURRENT_BUILDS e)"] by simp_all
  show ?thesis by (intro conjI) (fact cap dist v1 v2 rng)+
qed

text \<open>
  C2 on configured values: 2 and 3 are kept, 9 gives 4, -2 and 0 give 1, as do a missing
  value and \<open>-Infinity\<close>, and \<open>+Infinity\<close> gives 4. With two slots configured and both
  taken (builds 1 and 2 running, 3 waiting) the registry holds two builds, and with
  three configured and four submissions it holds three.
\<close>

theorem capacity_invariant_witness:
  "maxConcurrent (run watchdog_calls (BuildQueue two_slot_env)) = 2
   \<and> active_ids (run watchdog_calls (BuildQueue two_slot_env)) = [NumId 1, NumId 2]
   \<and> pending_ids (run watchdog_calls (BuildQueue two_slot_env)) = [NumId 3]
   \<and> int (length (activeBuilds (run watchdog_calls (BuildQueue two_slot_env)))) \<le> 2
   \<and> maxConcurrent (run abcd_calls (BuildQueue (demo_env\<lparr>MAX_CONCURRENT_BUILDS := Num 3\<rparr>))) = 3
   \<and> active_ids (run abcd_calls (BuildQueue (demo_env\<lparr>MAX_CONCURRENT_BUILDS := Num 3\<rparr>)))
       = [NumId 9, NumId 1, NumId 2]
   \<and> int (length (activeBuilds
         (run abcd_calls (BuildQueue (demo_env\<lparr>MAX_CONCURRENT_BUILDS := Num 3\<rparr>))))) \<le> 3
   \<and> maxConcurrent (run abcd_calls (BuildQueue (demo_env\<lparr>MAX_CONCURRENT_BUILDS := Num 9\<rparr>))) = 4
   \<and> maxConcurrent (run abcd_calls (BuildQueue (demo_env\<lparr>MAX_CONCURRENT_BUILDS := Num (- 2)\<rparr>))) = 1
   \<and> maxConcurrent (run abcd_calls (BuildQueue (demo_env\<lparr>MAX_CONCURRENT_BUILDS := Num 0\<rparr>))) = 1
   \<and> maxConcurrent (run abcd_calls (BuildQueue (demo_env\<lparr>MAX_CONCURRENT_BUILDS := NaN\<rparr>))) = 1
   \<and> maxConcurrent (run abcd_calls (BuildQueue (demo_env\<lparr>MAX_CONCURRENT_BUILDS := NegInfinity\<rparr>))) = 1
   \<and> maxConcurrent (run abcd_calls (BuildQueue (demo_env\<lparr>MAX_CONCURRENT_BUILDS := PosInfinity\<rparr>))) = 4"
proof -
  have a: "active_ids (run watchdog_calls (BuildQueue two_slot_env)) = [NumId 1, NumId 2]"
    "pending_ids (run watchdog_calls (BuildQueue two_slot_env)) = [NumId 3]"
    "active_ids (run abcd_calls (BuildQueue (demo_env\<lparr>MAX_CONCURRENT_BUILDS := Num 3\<rparr>)))
       = [NumId 9, NumId 1, NumId 2]"
    by code_simp+
  have c2: "MAX_CONCURRENT_BUILDS two_slot_env = Num 2" by (simp add: two_slot_env_def)
  show ?thesis
    using capacity_invariant[of watchdog_calls two_slot_env]
      capacity_invariant[of abcd_calls "demo_env\<lparr>MAX_CONCURRENT_BUILDS := Num 3\<rparr>"]
      capacity_invariant[of abcd_calls "demo_env\<lparr>MAX_CONCURRENT_BUILDS := Num 9\<rparr>"]
      capacity_invariant[of abcd_calls "demo_env\<lparr>MAX_CONCURRENT_BUILDS := Num (- 2)\<rparr>"]
      capacity_invariant[of abcd_calls "demo_env\<lparr>MAX_CONCURRENT_BUILDS := Num 0\<rparr>"]
      capacity_invariant[of abcd_calls "demo_env\<lparr>MAX_CONCURRENT_BUILDS := NaN\<rparr>"]
      capacity_invariant[of abcd_calls "demo_env\<lparr>MAX_CONCURRENT_BUILDS := NegInfinity\<rparr>"]
      capacity_invariant[of abcd_calls "demo_env\<lparr>MAX_CONCURRENT_BUILDS := PosInfinity\<rparr>"]
      a c2
    by simp
qed

subsection \<open>C3: the two-bucket order\<close>

text \<open>
  Claim C3. The insertion of \<open>addToQueue\<close> puts a priority item right before the first
  item that is not priority (at the end if there is none) and appends any other item.
  It keeps the two-bucket order, the new item is the last of its bucket and the other
  bucket is unchanged; every sequence of calls keeps the order, which holds on a fresh
  object. With the slot taken, A (priority), B, C (priority), D end up as A, C, B, D.
\<close>

theorem priority_ordering:
  "(priority x \<longrightarrow> enqueue x q = takeWhile priority q @ x # dropWhile priority q)
   \<and> (\<not> priority x \<longrightarrow> enqueue x q = q @ [x])
   \<and> (two_bucket q \<longrightarrow> two_bucket (enqueue x q))
   \<and> (two_bucket q \<and> priority x \<longrightarrow> filter priority (enqueue x q) = filter priority q @ [x])
   \<and> filter (\<lambda>y. \<not> priority y) (enqueue x q)
        = filter (\<lambda>y. \<not> priority y) q @ (if priority x then [] else [x])
   \<and> (two_bucket (queue s) \<longrightarrow> two_bucket (queue (run cs s)))
   \<and> two_bucket (queue (run cs (BuildQueue (e\<lparr>queueFile := Missing\<rparr>))))
   \<and> pending_ids (run abcd_calls (BuildQueue demo_env)) = [NumId 1, NumId 3, NumId 2, NumId 4]"
proof -
  have "two_bucket (queue (BuildQueue (e\<lparr>queueFile := Missing\<rparr>)))"
    by (simp add: BuildQueue_def load_def two_bucket_def)
  then have "two_bucket (queue (run cs (BuildQueue (e\<lparr>queueFile := Missing\<rparr>))))"
    by (rule run_two_bucket)
  moreover have "pending_ids (run abcd_calls (BuildQueue demo_env)) = [NumId 1, NumId 3, NumId 2, NumId 4]"
    by code_simp
  moreover have "priority x \<longrightarrow> enqueue x q = takeWhile priority q @ x # dropWhile priority q"
    by (simp add: enqueue_priority)
  moreover have "\<not> priority x \<longrightarrow> enqueue x q = q @ [x]"
    by (simp add: enqueue_plain)
  moreover have "two_bucket q \<longrightarrow> two_bucket (enqueue x q)"
    by (simp add: two_bucket_enqueue)
  moreover have "two_bucket q \<and> priority x \<longrightarrow> filter priority (enqueue x q) = filter priority q @ [x]"
    using filter_enqueue_priority[of q x] by blast
  moreover note filter_enqueue_other[of x q]
  moreover have "two_bucket (queue s) \<longrightarrow> two_bucket (queue (run cs s))"
    by (simp add: run_two_bucket)
  ultimately show ?thesis by blast
qed

text \<open>
  C3 when C arrives: the queue A, B is in two-bucket order, C is priority, and after the
  insertion and the rest of the run the order still holds, the priority items first.
\<close>

theorem priority_ordering_witness:
  "two_bucket (queue (run (take 3 abcd_calls) (BuildQueue demo_env)))
   \<and> priority (queueItem (NumId 3) () ''url'' ''C'' True 30)
   \<and> map chatId (enqueue (queueItem (NumId 3) () ''url'' ''C'' True 30)
          (queue (run (take 3 abcd_calls) (BuildQueue demo_env)))) = [NumId 1, NumId 3, NumId 2]
   \<and> two_bucket (enqueue (queueItem (NumId 3) () ''url'' ''C'' True 30)
          (queue (run (take 3 abcd_calls) (BuildQueue demo_env))))
   \<and> two_bucket (queue (run (drop 3 abcd_calls) (run (take 3 abcd_calls) (BuildQueue demo_env))))
   \<and> \<not> priority (queueItem (NumId 4) () ''url'' ''D'' False 40)
   \<and> enqueue (queueItem (NumId 4) () ''url'' ''D'' False 40)
          (queue (run (take 4 abcd_calls) (BuildQueue demo_env)))
       = queue (run (take 4 abcd_calls) (BuildQueue demo_env))
         @ [queueItem (NumId 4) () ''url'' ''D'' False 40]"
proof -
  have h1: "two_bucket (queue (run (take 3 abcd_calls) (BuildQueue demo_env)))" by code_simp
  have h2: "priority (queueItem (NumId 3) () ''url'' ''C'' True 30)" by code_simp
  have h3: "map chatId (enqueue (queueItem (NumId 3) () ''url'' ''C'' True 30)
          (queue (run (take 3 abcd_calls) (BuildQueue demo_env)))) = [NumId 1, NumId 3, NumId 2]"
    by code_simp
  have h4: "\<not> priority (queueItem (NumId 4) () ''url'' ''D'' False 40)" by code_simp
  show ?thesis
    using priority_ordering[of "queueItem (NumId 3) () ''url'' ''C'' True 30"
        "queue (run (take 3 abcd_calls) (BuildQueue demo_env))"
        "run (take 3 abcd_calls) (BuildQueue demo_env)" "drop 3 abcd_calls" demo_env]
      priority_ordering[of "queueItem (NumId 4) () ''url'' ''D'' False 40"
        "queue (run (take 4 abcd_calls) (BuildQueue demo_env))"
        "run (take 3 abcd_calls) (BuildQueue demo_env)" "drop 3 abcd_calls" demo_env]
      h1 h2 h3 h4
    by blast
qed

subsection \<open>C4: release of a running build\<close>

text \<open>
  Claim C4. For an identity with a running build \<open>b\<close>, \<open>release\<close> records the result with
  the duration \<open>now - startTime b\<close> (a success adds one to \<open>success\<close> and the duration to
  \<open>totalTime\<close>, a failure adds one to \<open>failed\<close> only), deletes the build, saves, and then
  runs \<open>processNext\<close> once on that state. With a start callback assigned the statistics
  are exactly the recorded result and \<open>processNext\<close> has run once. In general the number
  of runs of \<open>processNext\<close> is one more than the number of failures recorded beyond the
  release's own: with no callback, \<open>processNext\<close> releases the job it has just started as
  failed, and that release in turn runs \<open>processNext\<close> once. The file holds the
  resulting queue and statistics, and the identity is no longer running unless it was
  also waiting.
\<close>

theorem release_effects:
  assumes "map_of (activeBuilds s) c = Some b"
  shows "release c ok now s = processNext now (save now
           (s\<lparr>stats := record_result ok (now - startTime b) (stats s),
             activeBuilds := AList.delete c (activeBuilds s)\<rparr>))
   \<and> record_result True (now - startTime b) (stats s)
        = (stats s)\<lparr>success := success (stats s) + 1,
                    totalTime := totalTime (stats s) + (now - startTime b)\<rparr>
   \<and> record_result False (now - startTime b) (stats s)
        = (stats s)\<lparr>failed := failed (stats s) + 1\<rparr>
   \<and> success (stats (release c ok now s)) = success (stats s) + (if ok then 1 else 0)
   \<and> totalTime (stats (release c ok now s))
        = totalTime (stats s) + (if ok then now - startTime b else 0)
   \<and> total (stats (release c ok now s)) = total (stats s)
   \<and> (onBuildStart s \<longrightarrow>
         stats (release c ok now s) = record_result ok (now - startTime b) (stats s)
         \<and> drains (release c ok now s) = drains s + 1)
   \<and> int (drains (release c ok now s)) - int (drains s)
        = 1 + (failed (stats (release c ok now s)) - failed (stats s) - (if ok then 0 else 1))
   \<and> (fs_writable s \<longrightarrow> persisted (release c ok now s))
   \<and> (c \<notin> set (pending_ids s) \<longrightarrow> \<not> has_active (release c ok now s) c)"
proof -
  let ?t = "save now (s\<lparr>stats := record_result ok (now - startTime b) (stats s),
             activeBuilds := AList.delete c (activeBuilds s)\<rparr>)"
  have r: "release c ok now s = processNext now ?t" using assms by (rule release_active)
  note st = release_stats[OF assms, of ok now]
  have cb: "onBuildStart s \<longrightarrow>
         stats (release c ok now s) = record_result ok (now - startTime b) (stats s)
         \<and> drains (release c ok now s) = drains s + 1"
    unfolding r using processNext_stats_callback[of ?t now] by simp
  have dr: "int (drains (release c ok now s)) - int (drains s)
        = 1 + (failed (stats (release c ok now s)) - failed (stats s) - (if ok then 0 else 1))"
    using st by simp
  have pe: "fs_writable s \<longrightarrow> persisted (release c ok now s)"
    unfolding r by (auto intro!: processNext_persisted persisted_save)
  have na: "c \<notin> set (pending_ids s) \<longrightarrow> \<not> has_active (release c ok now s) c"
    by (simp add: release_not_active_after)
  have rr: "record_result True (now - startTime b) (stats s)
        = (stats s)\<lparr>success := success (stats s) + 1,
                    totalTime := totalTime (stats s) + (now - startTime b)\<rparr>"
    "record_result False (now - startTime b) (stats s)
        = (stats s)\<lparr>failed := failed (stats s) + 1\<rparr>"
    by (simp_all add: record_result_def)
  show ?thesis using r st cb dr pe na rr by blast
qed

text \<open>C4 on the release of build 9, started at 5 and released as a success at 30.\<close>

theorem release_effects_witness:
  "map_of (activeBuilds (run busy_calls (BuildQueue demo_env))) (NumId 9)
     = Some \<lparr>startTime = 5, lastActivity = 5, b_buildData = (), b_type = ''url'', b_userName = ''Z''\<rparr>
   \<and> stats (run busy_calls (BuildQueue demo_env))
       = \<lparr>success = 0, failed = 0, total = 3, totalTime = 0\<rparr>
   \<and> stats (release (NumId 9) True 30 (run busy_calls (BuildQueue demo_env)))
       = \<lparr>success = 1, failed = 0, total = 3, totalTime = 25\<rparr>
   \<and> drains (release (NumId 9) True 30 (run busy_calls (BuildQueue demo_env)))
       = drains (run busy_calls (BuildQueue demo_env)) + 1
   \<and> persisted (release (NumId 9) True 30 (run busy_calls (BuildQueue demo_env)))
   \<and> \<not> has_active (release (NumId 9) True 30 (run busy_calls (BuildQueue demo_env))) (NumId 9)"
proof -
  let ?s = "run busy_calls (BuildQueue demo_env)"
  have h: "map_of (activeBuilds ?s) (NumId 9)
     = Some \<lparr>startTime = 5, lastActivity = 5, b_buildData = (), b_type = ''url'', b_userName = ''Z''\<rparr>"
    by code_simp
  have 1: "stats ?s = \<lparr>success = 0, failed = 0, total = 3, totalTime = 0\<rparr>" by code_simp
  have 2: "onBuildStart ?s" "fs_writable ?s" "NumId 9 \<notin> set (pending_ids ?s)" by code_simp+
  from release_effects[OF h, of True 30] 2
  have "stats (release (NumId 9) True 30 ?s)
          = record_result True (30 - startTime \<lparr>startTime = 5, lastActivity = 5, b_buildData = (),
               b_type = ''url'', b_userName = ''Z''\<rparr>) (stats ?s)"
    "drains (release (NumId 9) True 30 ?s) = drains ?s + 1"
    "persisted (release (NumId 9) True 30 ?s)"
    "\<not> has_active (release (NumId 9) True 30 ?s) (NumId 9)"
    by blast+
  then show ?thesis using h 1 by (simp add: record_result_def)
qed

subsection \<open>C5: release of an identity that is not running\<close>

text \<open>
  Claim C5, as the code has it. For an identity that is not in the registry \<open>release\<close>
  returns the object as it is: queue, registry, statistics and the count of
  \<open>processNext\<close> runs are unchanged. Hence a second release of the same identity right
  after the first changes nothing, provided the identity is not also waiting in the
  queue.
\<close>

theorem release_idle:
  "(\<not> has_active s c \<longrightarrow> release c ok now s = s)
   \<and> (c \<notin> set (pending_ids s) \<longrightarrow>
        release c ok' now' (release c ok now s) = release c ok now s)"
  by (simp add: release_inactive release_not_active_after)

text \<open>C5 on an identity that is not running, and on a double release of build 9.\<close>

theorem release_idle_witness:
  "\<not> has_active (run busy_calls (BuildQueue demo_env)) (NumId 5)
   \<and> release (NumId 5) True 30 (run busy_calls (BuildQueue demo_env))
        = run busy_calls (BuildQueue demo_env)
   \<and> NumId 9 \<notin> set (pending_ids (run busy_calls (BuildQueue demo_env)))
   \<and> release (NumId 9) True 40 (release (NumId 9) True 30 (run busy_calls (BuildQueue demo_env)))
        = release (NumId 9) True 30 (run busy_calls (BuildQueue demo_env))"
proof -
  let ?s = "run busy_calls (BuildQueue demo_env)"
  have h1: "\<not> has_active ?s (NumId 5)" by code_simp
  have h2: "NumId 9 \<notin> set (pending_ids ?s)" by code_simp
  show ?thesis
    using release_idle[of ?s "NumId 5" True 30] release_idle[of ?s "NumId 9" True 30 True 40] h1 h2
    by blast
qed

text \<open>
  C5 as stated fails for an identity that is running and waiting: the first release
  counts a success and its \<open>processNext\<close> starts the waiting request of the same identity,
  so the second release finds a running build and counts a second success.
\<close>

theorem double_release_counterexample:
  "pending_ids (run twice_started_calls (BuildQueue demo_env)) = [NumId 7]
   \<and> active_ids (run twice_started_calls (BuildQueue demo_env)) = [NumId 7]
   \<and> success (stats (run twice_started_calls (BuildQueue demo_env))) = 0
   \<and> success (stats (release (NumId 7) True 30 (run twice_started_calls (BuildQueue demo_env)))) = 1
   \<and> success (stats (release (NumId 7) True 40
        (release (NumId 7) True 30 (run twice_started_calls (BuildQueue demo_env))))) = 2
   \<and> active_ids (release (NumId 7) True 30 (run twice_started_calls (BuildQueue demo_env)))
        = [NumId 7]
   \<and> active_ids (release (NumId 7) True 40
        (release (NumId 7) True 30 (run twice_started_calls (BuildQueue demo_env)))) = []"
  by code_simp

subsection \<open>C6: the watchdog sweep\<close>

text \<open>
  Claim C6. The sweep first collects the identities to release from the registry as it
  is, then releases them as failures. A build whose \<open>lastActivity\<close> is set is collected
  exactly when \<open>now - startTime\<close> exceeds \<open>MAX_BUILD_TIME\<close> or \<open>now - lastActivity\<close> exceeds
  \<open>INACTIVITY_TIMEOUT\<close>. A build that is not collected is still in the registry
  afterwards, unchanged; no build left in the registry is over a budget; every collected
  build is counted as one failure and no other counter moves. With no start callback
  the failures also count the waiting requests that \<open>processNext\<close> started and released
  at once.
\<close>

theorem watchdog_sweep:
  assumes "distinct (active_ids s)"
  shows "checkStuckBuilds now s = fold (\<lambda>c. release c False now) (toRelease now s) s
   \<and> (\<forall>kb\<in>set (activeBuilds s). lastActivity (snd kb) \<noteq> 0 \<longrightarrow>
         (fst kb \<in> set (toRelease now s) \<longleftrightarrow>
            now - startTime (snd kb) > MAX_BUILD_TIME
            \<or> now - lastActivity (snd kb) > INACTIVITY_TIMEOUT))
   \<and> (\<forall>kb\<in>set (activeBuilds s). fst kb \<notin> set (toRelease now s) \<longrightarrow>
         map_of (activeBuilds (checkStuckBuilds now s)) (fst kb) = Some (snd kb))
   \<and> (\<forall>kb\<in>set (activeBuilds (checkStuckBuilds now s)). \<not> stuck now (snd kb))
   \<and> failed (stats (checkStuckBuilds now s))
        = failed (stats s) + int (length (toRelease now s))
          + (if onBuildStart s then 0
             else int (length (queue s)) - int (length (queue (checkStuckBuilds now s))))
   \<and> success (stats (checkStuckBuilds now s)) = success (stats s)
   \<and> total (stats (checkStuckBuilds now s)) = total (stats s)
   \<and> totalTime (stats (checkStuckBuilds now s)) = totalTime (stats s)"
proof -
  let ?fl = "toRelease now s"
  let ?s' = "fold (\<lambda>c. release c False now) (toRelease now s) s"
  note eq = checkStuckBuilds_fold[of now s]
  have a: "\<forall>kb\<in>set (activeBuilds s). lastActivity (snd kb) \<noteq> 0 \<longrightarrow>
         (fst kb \<in> set ?fl \<longleftrightarrow>
            now - startTime (snd kb) > MAX_BUILD_TIME
            \<or> now - lastActivity (snd kb) > INACTIVITY_TIMEOUT)"
  proof (intro ballI impI)
    fix kb assume "kb \<in> set (activeBuilds s)" and z: "lastActivity (snd kb) \<noteq> 0"
    then have "(fst kb, snd kb) \<in> set (activeBuilds s)" by simp
    from toRelease_entry[OF assms this, of now] stuck_budgets[OF z, of now]
    show "fst kb \<in> set ?fl \<longleftrightarrow>
            now - startTime (snd kb) > MAX_BUILD_TIME
            \<or> now - lastActivity (snd kb) > INACTIVITY_TIMEOUT" by simp
  qed
  have b: "\<forall>kb\<in>set (activeBuilds s). fst kb \<notin> set ?fl \<longrightarrow>
         map_of (activeBuilds ?s') (fst kb) = Some (snd kb)"
  proof (intro ballI impI)
    fix kb assume in_s: "kb \<in> set (activeBuilds s)" and nf: "fst kb \<notin> set ?fl"
    have "map_of (activeBuilds s) (fst kb) = Some (snd kb)"
      using assms in_s by (simp add: active_ids_def)
    from fold_release_entries[OF nf this]
    show "map_of (activeBuilds ?s') (fst kb) = Some (snd kb)" .
  qed
  have c: "\<forall>kb\<in>set (activeBuilds ?s'). \<not> stuck now (snd kb)"
  proof
    fix kb assume "kb \<in> set (activeBuilds ?s')"
    then have "(kb \<in> set (activeBuilds s) \<and> fst kb \<notin> set ?fl)
        \<or> (startTime (snd kb) = now \<and> lastActivity (snd kb) = now)"
      using fold_release_new_entries[of False now ?fl s] by auto
    then show "\<not> stuck now (snd kb)"
    proof
      assume k: "kb \<in> set (activeBuilds s) \<and> fst kb \<notin> set ?fl"
      then have "(fst kb, snd kb) \<in> set (activeBuilds s)" by simp
      then show ?thesis using k toRelease_iff[of "fst kb" now s] by blast
    next
      assume "startTime (snd kb) = now \<and> lastActivity (snd kb) = now"
      then show ?thesis by (simp add: stuck_fresh)
    qed
  qed
  have act: "\<forall>c\<in>set ?fl. has_active s c"
    by (force simp: toRelease_iff has_active_iff)
  note d = fold_release_failed[OF toRelease_distinct[OF assms, of now] act, of now]
  show ?thesis unfolding eq
    apply (intro conjI)
           apply (rule refl)
          apply (rule a)
         apply (rule b)
        apply (rule c)
       apply (simp_all add: d)
    done
qed

text \<open>
  C6 with two slots at time 2800000: build 1 (started at 100) is over the run-time
  budget, build 2 (started at 2000000, heartbeat at 2500000) is over neither; build 1 is
  released as a failure, build 2 stays as it is and the waiting request 3 takes the
  free slot.
\<close>

theorem watchdog_sweep_witness:
  "distinct (active_ids (run watchdog_calls (BuildQueue two_slot_env)))
   \<and> activeBuilds (run watchdog_calls (BuildQueue two_slot_env))
       = [(NumId 1, \<lparr>startTime = 100, lastActivity = 100, b_buildData = (),
                     b_type = ''url'', b_userName = ''A''\<rparr>),
          (NumId 2, \<lparr>startTime = 2000000, lastActivity = 2500000, b_buildData = (),
                     b_type = ''url'', b_userName = ''B''\<rparr>)]
   \<and> toRelease 2800000 (run watchdog_calls (BuildQueue two_slot_env)) = [NumId 1]
   \<and> (MAX_BUILD_TIME < 2800000 - 100 \<or> INACTIVITY_TIMEOUT < 2800000 - 100)
   \<and> \<not> (MAX_BUILD_TIME < 2800000 - 2000000 \<or> INACTIVITY_TIMEOUT < 2800000 - 2500000)
   \<and> map_of (activeBuilds (checkStuckBuilds 2800000 (run watchdog_calls (BuildQueue two_slot_env))))
        (NumId 2)
       = Some \<lparr>startTime = 2000000, lastActivity = 2500000, b_buildData = (),
               b_type = ''url'', b_userName = ''B''\<rparr>
   \<and> failed (stats (checkStuckBuilds 2800000 (run watchdog_calls (BuildQueue two_slot_env)))) = 1
   \<and> active_ids (checkStuckBuilds 2800000 (run watchdog_calls (BuildQueue two_slot_env)))
        = [NumId 2, NumId 3]"
proof -
  let ?s = "run watchdog_calls (BuildQueue two_slot_env)"
  let ?b1 = "\<lparr>startTime = 100, lastActivity = 100, b_buildData = (),
                     b_type = ''url'', b_userName = ''A''\<rparr>"
  let ?b2 = "\<lparr>startTime = 2000000, lastActivity = 2500000, b_buildData = (),
                     b_type = ''url'', b_userName = ''B''\<rparr>"
  have h: "distinct (active_ids ?s)" by code_simp
  have 1: "activeBuilds ?s = [(NumId 1, ?b1), (NumId 2, ?b2)]" by code_simp
  have 3: "failed (stats ?s) = 0" "onBuildStart ?s" by code_simp+
  have 4: "active_ids (checkStuckBuilds 2800000 ?s) = [NumId 2, NumId 3]" by code_simp
  note w = watchdog_sweep[OF h, of 2800000]
  from w have crit: "\<forall>kb\<in>set (activeBuilds ?s). lastActivity (snd kb) \<noteq> 0 \<longrightarrow>
         (fst kb \<in> set (toRelease 2800000 ?s) \<longleftrightarrow>
            2800000 - startTime (snd kb) > MAX_BUILD_TIME
            \<or> 2800000 - lastActivity (snd kb) > INACTIVITY_TIMEOUT)"
    by (elim conjE)
  have 2: "toRelease 2800000 ?s = [NumId 1]" by code_simp
  have 6: "MAX_BUILD_TIME < 2800000 - 100 \<or> INACTIVITY_TIMEOUT < 2800000 - 100"
    "\<not> (MAX_BUILD_TIME < 2800000 - 2000000 \<or> INACTIVITY_TIMEOUT < 2800000 - 2500000)"
    using crit by (simp_all add: 1 2)
  have out2: "NumId 2 \<notin> set (toRelease 2800000 ?s)" by (simp add: 2)
  from w have "\<forall>kb\<in>set (activeBuilds ?s). fst kb \<notin> set (toRelease 2800000 ?s) \<longrightarrow>
         map_of (activeBuilds (checkStuckBuilds 2800000 ?s)) (fst kb) = Some (snd kb)"
    by (elim conjE)
  then have 7: "map_of (activeBuilds (checkStuckBuilds 2800000 ?s)) (NumId 2) = Some ?b2"
    using out2 by (simp add: 1)
  from w
  have "failed (stats (checkStuckBuilds 2800000 ?s))
        = failed (stats ?s) + int (length (toRelease 2800000 ?s))
          + (if onBuildStart ?s then 0
             else int (length (queue ?s)) - int (length (queue (checkStuckBuilds 2800000 ?s))))"
    by (elim conjE)
  then have 5: "failed (stats (checkStuckBuilds 2800000 ?s)) = 1"
    by (simp add: 2 3)
  show ?thesis by (intro conjI) (fact h 1 2 4 5 6 7)+
qed

subsection \<open>C7: one release, one promotion\<close>

text \<open>
  Claim C7, as the code has it. With one slot, its build released, a start callback
  assigned and \<open>n \<ge> 1\<close> requests waiting, the head of the queue and only the head is
  started: the queue is its tail, the registry holds the head's build, started now, and
  the callback has been invoked for it. When the head cannot get a slot although the
  registry is not full (its identity is running), \<open>processNext\<close> puts it back at the
  front, saves and returns: queue, registry and statistics are as before. With no start
  callback assigned every request that is started is released as failed at once, so the
  whole queue is drained and the registry ends empty.
\<close>

theorem drain_one:
  "(maxConcurrent s = 1 \<and> activeBuilds s = [(c, b)] \<and> queue s = x # rest \<and> onBuildStart s \<longrightarrow>
      queue (release c ok now s) = rest
      \<and> activeBuilds (release c ok now s)
          = [(chatId x, \<lparr>startTime = now, lastActivity = now, b_buildData = buildData x,
                         b_type = item_type x, b_userName = userName x\<rparr>)]
      \<and> started (release c ok now s) = started s @ [chatId x]
      \<and> drains (release c ok now s) = drains s + 1)
   \<and> (queue s = x # rest \<and> \<not> isBusy s \<and> has_active s (chatId x) \<longrightarrow>
      processNext now s = save now (s\<lparr>drains := Suc (drains s)\<rparr>)
      \<and> queue (processNext now s) = x # rest
      \<and> activeBuilds (processNext now s) = activeBuilds s
      \<and> stats (processNext now s) = stats s
      \<and> started (processNext now s) = started s)
   \<and> (maxConcurrent s = 1 \<and> activeBuilds s = [(c, b)] \<and> \<not> onBuildStart s \<longrightarrow>
      queue (release c ok now s) = []
      \<and> activeBuilds (release c ok now s) = []
      \<and> failed (stats (release c ok now s))
          = failed (stats s) + (if ok then 0 else 1) + int (length (queue s)))"
proof -
  let ?t = "save now (s\<lparr>stats := record_result ok (now - startTime b) (stats s),
             activeBuilds := AList.delete c (activeBuilds s)\<rparr>)"
  have p1: "queue (release c ok now s) = rest
      \<and> activeBuilds (release c ok now s)
          = [(chatId x, \<lparr>startTime = now, lastActivity = now, b_buildData = buildData x,
                         b_type = item_type x, b_userName = userName x\<rparr>)]
      \<and> started (release c ok now s) = started s @ [chatId x]
      \<and> drains (release c ok now s) = drains s + 1"
    if a: "maxConcurrent s = 1" "activeBuilds s = [(c, b)]" "queue s = x # rest" "onBuildStart s"
  proof -
    have m: "map_of (activeBuilds s) c = Some b" using a(2) by simp
    have eq: "processNext now ?t =
       (save now (?t\<lparr>drains := Suc (drains ?t), queue := rest,
            activeBuilds := AList.update (chatId x)
              \<lparr>startTime = now, lastActivity = now, b_buildData = buildData x,
               b_type = item_type x, b_userName = userName x\<rparr> (activeBuilds ?t)\<rparr>))
         \<lparr>started := started ?t @ [chatId x]\<rparr>"
      by (subst processNext_unfold) (simp add: a isBusy_def has_active_def)
    show ?thesis
      unfolding release_active[OF m] eq by (simp add: a)
  qed
  have p2: "processNext now s = save now (s\<lparr>drains := Suc (drains s)\<rparr>)
      \<and> queue (processNext now s) = x # rest
      \<and> activeBuilds (processNext now s) = activeBuilds s
      \<and> stats (processNext now s) = stats s
      \<and> started (processNext now s) = started s"
    if a: "queue s = x # rest" "\<not> isBusy s" "has_active s (chatId x)"
    using a by (simp add: processNext_blocked[OF a])
  have p3: "queue (release c ok now s) = []
      \<and> activeBuilds (release c ok now s) = []
      \<and> failed (stats (release c ok now s))
          = failed (stats s) + (if ok then 0 else 1) + int (length (queue s))"
    if a: "maxConcurrent s = 1" "activeBuilds s = [(c, b)]" "\<not> onBuildStart s"
  proof -
    have m: "map_of (activeBuilds s) c = Some b" using a(2) by simp
    have t: "\<not> onBuildStart ?t" "activeBuilds ?t = []" "1 \<le> maxConcurrent ?t"
      using a by simp_all
    from processNext_drains_all[OF t, of now]
    have q: "queue (release c ok now s) = []" "activeBuilds (release c ok now s) = []"
      by (simp_all add: release_active[OF m])
    show ?thesis using q release_stats[OF m, of ok now] a(3) by simp
  qed
  show ?thesis using p1 p2 p3 by blast
qed

text \<open>
  C7 on the release of build 9 with 1 and 2 waiting; on a head that is itself running
  (two slots, one free); and on the release of build 9 with four waiting and no callback.
\<close>

theorem drain_one_witness:
  "maxConcurrent (run busy_calls (BuildQueue demo_env)) = 1
   \<and> active_ids (run busy_calls (BuildQueue demo_env)) = [NumId 9]
   \<and> pending_ids (run busy_calls (BuildQueue demo_env)) = [NumId 1, NumId 2]
   \<and> onBuildStart (run busy_calls (BuildQueue demo_env))
   \<and> pending_ids (release (NumId 9) True 30 (run busy_calls (BuildQueue demo_env))) = [NumId 2]
   \<and> activeBuilds (release (NumId 9) True 30 (run busy_calls (BuildQueue demo_env)))
       = [(NumId 1, \<lparr>startTime = 30, lastActivity = 30, b_buildData = (),
                     b_type = ''url'', b_userName = ''A''\<rparr>)]
   \<and> pending_ids (run blocked_calls (BuildQueue two_slot_env)) = [NumId 1]
   \<and> \<not> isBusy (run blocked_calls (BuildQueue two_slot_env))
   \<and> has_active (run blocked_calls (BuildQueue two_slot_env)) (NumId 1)
   \<and> queue (processNext 30 (run blocked_calls (BuildQueue two_slot_env)))
       = queue (run blocked_calls (BuildQueue two_slot_env))
   \<and> activeBuilds (processNext 30 (run blocked_calls (BuildQueue two_slot_env)))
       = activeBuilds (run blocked_calls (BuildQueue two_slot_env))
   \<and> \<not> onBuildStart (run abcd_calls (BuildQueue demo_env))
   \<and> queue (release (NumId 9) False 50 (run abcd_calls (BuildQueue demo_env))) = []
   \<and> failed (stats (release (NumId 9) False 50 (run abcd_calls (BuildQueue demo_env)))) = 5"
proof -
  let ?s = "run busy_calls (BuildQueue demo_env)"
  let ?b = "\<lparr>startTime = 5, lastActivity = 5, b_buildData = (), b_type = ''url'', b_userName = ''Z''\<rparr>"
  let ?x = "queueItem (NumId 1) () ''url'' ''A'' True 10"
  let ?y = "queueItem (NumId 2) () ''zip'' ''B'' False 20"
  have h: "maxConcurrent ?s = 1" "activeBuilds ?s = [(NumId 9, ?b)]" "queue ?s = ?x # [?y]"
    "onBuildStart ?s"
    by code_simp+
  from drain_one[of ?s "NumId 9" ?b ?x "[?y]" True 30] h
  have "queue (release (NumId 9) True 30 ?s) = [?y]"
    "activeBuilds (release (NumId 9) True 30 ?s)
          = [(chatId ?x, \<lparr>startTime = 30, lastActivity = 30, b_buildData = buildData ?x,
                         b_type = item_type ?x, b_userName = userName ?x\<rparr>)]"
    by blast+
  then have 1: "maxConcurrent ?s = 1" "active_ids ?s = [NumId 9]"
    "pending_ids ?s = [NumId 1, NumId 2]" "onBuildStart ?s"
    "pending_ids (release (NumId 9) True 30 ?s) = [NumId 2]"
    "activeBuilds (release (NumId 9) True 30 ?s)
       = [(NumId 1, \<lparr>startTime = 30, lastActivity = 30, b_buildData = (),
                     b_type = ''url'', b_userName = ''A''\<rparr>)]"
    using h by (simp_all add: pending_ids_def active_ids_def queueItem_def)
  let ?t = "run blocked_calls (BuildQueue two_slot_env)"
  let ?z = "queueItem (NumId 1) () ''url'' ''A'' True 20"
  have g: "queue ?t = ?z # []" "\<not> isBusy ?t" "has_active ?t (chatId ?z)"
    by code_simp+
  from drain_one[of ?t "NumId 1" ?b ?z "[]" True 30] g
  have "queue (processNext 30 ?t) = ?z # []" "activeBuilds (processNext 30 ?t) = activeBuilds ?t"
    by blast+
  then have 2: "pending_ids ?t = [NumId 1]" "\<not> isBusy ?t" "has_active ?t (NumId 1)"
    "queue (processNext 30 ?t) = queue ?t" "activeBuilds (processNext 30 ?t) = activeBuilds ?t"
    using g by (simp_all add: pending_ids_def)
  let ?u = "run abcd_calls (BuildQueue demo_env)"
  have k: "maxConcurrent ?u = 1" "activeBuilds ?u = [(NumId 9, ?b)]" "\<not> onBuildStart ?u"
    "failed (stats ?u) = 0" "length (queue ?u) = 4"
    by code_simp+
  from drain_one[of ?u "NumId 9" ?b ?x "[]" False 50] k(1,2,3)
  have "queue (release (NumId 9) False 50 ?u) = []"
    "failed (stats (release (NumId 9) False 50 ?u))
       = failed (stats ?u) + (if False then 0 else 1) + int (length (queue ?u))"
    by blast+
  then have 3: "\<not> onBuildStart ?u" "queue (release (NumId 9) False 50 ?u) = []"
    "failed (stats (release (NumId 9) False 50 ?u)) = 5"
    using k by simp_all
  show ?thesis by (intro conjI) (fact 1 2 3)+
qed

text \<open>
  C7 as stated fails while no start callback is assigned: the release of the one running
  build with four requests waiting empties the queue, counts four failures and leaves no
  build running.
\<close>

theorem drain_all_counterexample:
  "maxConcurrent (run abcd_calls (BuildQueue demo_env)) = 1
   \<and> active_ids (run abcd_calls (BuildQueue demo_env)) = [NumId 9]
   \<and> length (queue (run abcd_calls (BuildQueue demo_env))) = 4
   \<and> queue (release (NumId 9) True 50 (run abcd_calls (BuildQueue demo_env))) = []
   \<and> activeBuilds (release (NumId 9) True 50 (run abcd_calls (BuildQueue demo_env))) = []
   \<and> failed (stats (release (NumId 9) True 50 (run abcd_calls (BuildQueue demo_env)))) = 4"
  by code_simp

subsection \<open>C8: saving and loading\<close>

text \<open>
  Claim C8. When the write succeeds, loading what \<open>save\<close> wrote gives back the queue and
  the statistics, in the same object and in an object constructed on the written file;
  the constructed object has no running builds, and the written document does not depend
  on the registry. A missing or corrupt file leaves \<open>load\<close> without effect, so the
  constructed object has an empty queue and zero statistics. The JSON text of an item is
  taken to determine the item (payloads are JSON values).
\<close>

theorem persist_roundtrip:
  "(fs_writable s \<longrightarrow>
      queue (load (save now s)) = queue s \<and> stats (load (save now s)) = stats s
      \<and> queue (BuildQueue (e\<lparr>queueFile := disk (save now s)\<rparr>)) = queue s
      \<and> stats (BuildQueue (e\<lparr>queueFile := disk (save now s)\<rparr>)) = stats s)
   \<and> activeBuilds (BuildQueue e) = []
   \<and> disk (save now (s\<lparr>activeBuilds := a\<rparr>)) = disk (save now s)
   \<and> (queueFile e = Missing \<or> queueFile e = Corrupt \<longrightarrow>
        queue (BuildQueue e) = []
        \<and> stats (BuildQueue e) = \<lparr>success = 0, failed = 0, total = 0, totalTime = 0\<rparr>)
   \<and> (disk s = Missing \<or> disk s = Corrupt \<longrightarrow> load s = s)"
proof -
  have 1: "fs_writable s \<longrightarrow>
      queue (load (save now s)) = queue s \<and> stats (load (save now s)) = stats s
      \<and> queue (BuildQueue (e\<lparr>queueFile := disk (save now s)\<rparr>)) = queue s
      \<and> stats (BuildQueue (e\<lparr>queueFile := disk (save now s)\<rparr>)) = stats s"
    by (simp add: save_def load_def BuildQueue_def)
  have 2: "disk (save now (s\<lparr>activeBuilds := a\<rparr>)) = disk (save now s)"
    by (simp add: save_def)
  have 3: "queueFile e = Missing \<or> queueFile e = Corrupt \<longrightarrow>
        queue (BuildQueue e) = []
        \<and> stats (BuildQueue e) = \<lparr>success = 0, failed = 0, total = 0, totalTime = 0\<rparr>"
    by (auto simp: load_def BuildQueue_def)
  have 4: "disk s = Missing \<or> disk s = Corrupt \<longrightarrow> load s = s"
    by (auto simp: load_def)
  have 5: "activeBuilds (BuildQueue e) = []" by simp
  show ?thesis using 1 2 3 4 5 by blast
qed

text \<open>C8 on the object with build 9 running and 1, 2 waiting, and on a missing file.\<close>

theorem persist_roundtrip_witness:
  "fs_writable (run busy_calls (BuildQueue demo_env))
   \<and> pending_ids (run busy_calls (BuildQueue demo_env)) = [NumId 1, NumId 2]
   \<and> active_ids (run busy_calls (BuildQueue demo_env)) = [NumId 9]
   \<and> queue (BuildQueue (demo_env\<lparr>queueFile := disk (save 25 (run busy_calls (BuildQueue demo_env)))\<rparr>))
       = queue (run busy_calls (BuildQueue demo_env))
   \<and> stats (BuildQueue (demo_env\<lparr>queueFile := disk (save 25 (run busy_calls (BuildQueue demo_env)))\<rparr>))
       = stats (run busy_calls (BuildQueue demo_env))
   \<and> activeBuilds (BuildQueue (demo_env\<lparr>queueFile := disk (save 25 (run busy_calls (BuildQueue demo_env)))\<rparr>)) = []
   \<and> queueFile demo_env = Missing
   \<and> queue (BuildQueue demo_env) = []
   \<and> disk (BuildQueue demo_env) = Missing
   \<and> load (BuildQueue demo_env) = BuildQueue demo_env"
proof -
  let ?s = "run busy_calls (BuildQueue demo_env)"
  have h: "fs_writable ?s" "pending_ids ?s = [NumId 1, NumId 2]" "active_ids ?s = [NumId 9]"
    "queueFile demo_env = Missing" "disk (BuildQueue demo_env) = Missing"
    by code_simp+
  show ?thesis
    using persist_roundtrip[of ?s 25 demo_env] h
      persist_roundtrip[of ?s 25 "demo_env\<lparr>queueFile := disk (save 25 ?s)\<rparr>"]
      persist_roundtrip[of "BuildQueue demo_env" 25 demo_env]
    by blast
qed

subsection \<open>C9: the estimated wait\<close>

text \<open>
  Claim C9, as the code has it. For every position the estimate is the formula of the
  specification with the average in whole minutes: the cumulative duration of the
  successes divided by their number, in minutes, rounded to the nearest integer (a half
  upwards), or three minutes when there is no success.
\<close>

theorem estimated_wait:
  "getEstimatedWait s p
     = spec_wait (of_int (round (spec_avgMinutes (stats s))))
         (maxConcurrent s) (int (length (activeBuilds s))) p"
proof -
  have "(of_int (totalTime (stats s)) / of_int (success (stats s)) / 1000 / 60 :: rat)
      = of_int (totalTime (stats s)) / of_int (success (stats s)) / 60000"
    by simp
  then have "avgTime s = round (spec_avgMinutes (stats s))"
    by (simp only: avgTime_def spec_avgMinutes_def if_distrib[of round] round_numeral)
  then show ?thesis
    by (simp only: getEstimatedWait_def spec_wait_def Let_def of_int_mult)
qed

text \<open>C9 after one success of 90 seconds: the average is 2 minutes, the estimate for position 2 is 4.\<close>

theorem estimated_wait_witness:
  "getEstimatedWait (run estimate_calls (BuildQueue demo_env)) 2
     = spec_wait 2 1 1 2
   \<and> spec_wait 2 1 1 2 = 4"
proof -
  let ?s = "run estimate_calls (BuildQueue demo_env)"
  have 1: "round (spec_avgMinutes (stats ?s)) = 2" "maxConcurrent ?s = 1"
    "int (length (activeBuilds ?s)) = 1"
    by code_simp+
  have 2: "spec_wait 2 1 1 2 = 4" by code_simp
  show ?thesis using estimated_wait[of ?s 2] 1 2 by simp
qed

text \<open>
  C9 as stated fails: after one success of 90 seconds, with one slot that is taken, the
  code estimates 4 minutes for position 2, and the formula with the unrounded average of
  1.5 minutes gives 3.
\<close>

theorem estimated_wait_counterexample:
  "stats (run estimate_calls (BuildQueue demo_env))
     = \<lparr>success = 1, failed = 0, total = 4, totalTime = 90000\<rparr>
   \<and> maxConcurrent (run estimate_calls (BuildQueue demo_env)) = 1
   \<and> length (activeBuilds (run estimate_calls (BuildQueue demo_env))) = 1
   \<and> getUserPosition (run estimate_calls (BuildQueue demo_env)) (NumId 4) = 2
   \<and> getEstimatedWait (run estimate_calls (BuildQueue demo_env)) 2 = 4
   \<and> spec_avgMinutes (stats (run estimate_calls (BuildQueue demo_env))) = 3 / 2
   \<and> spec_wait (spec_avgMinutes (stats (run estimate_calls (BuildQueue demo_env))))
        (maxConcurrent (run estimate_calls (BuildQueue demo_env)))
        (int (length (activeBuilds (run estimate_calls (BuildQueue demo_env))))) 2 = 3"
  by code_simp

subsection \<open>C10: the administrative force-release\<close>

text \<open>
  Claim C10, as the code has it. \<open>forceRelease\<close> never records a result of its own: with
  a start callback assigned the four counters are unchanged, and in any case \<open>success\<close>,
  \<open>total\<close> and \<open>totalTime\<close> are. For a truthy identity that is running it deletes the
  build, runs \<open>processNext\<close> once and saves; the identity is then not running unless it
  was also waiting. For a truthy identity that is not running it only saves. With no
  identity (or a falsy one) it clears the registry, runs \<open>processNext\<close> and saves, so
  that only a build started now can be in the registry. With no start callback
  \<open>failed\<close> grows by the number of waiting requests that \<open>processNext\<close> started and
  released at once.
\<close>

theorem forceRelease_frame:
  "(onBuildStart s \<longrightarrow> stats (forceRelease co now s) = stats s)
   \<and> success (stats (forceRelease co now s)) = success (stats s)
   \<and> total (stats (forceRelease co now s)) = total (stats s)
   \<and> totalTime (stats (forceRelease co now s)) = totalTime (stats s)
   \<and> failed (stats (forceRelease co now s))
        = failed (stats s)
          + (if onBuildStart s then 0
             else int (length (queue s)) - int (length (queue (forceRelease co now s))))
   \<and> (truthy c \<and> has_active s c \<longrightarrow>
        forceRelease (Some c) now s
          = save now (processNext now (s\<lparr>activeBuilds := AList.delete c (activeBuilds s)\<rparr>))
        \<and> (onBuildStart s \<longrightarrow> drains (forceRelease (Some c) now s) = drains s + 1)
        \<and> (c \<notin> set (pending_ids s) \<longrightarrow> \<not> has_active (forceRelease (Some c) now s) c))
   \<and> (truthy c \<and> \<not> has_active s c \<longrightarrow> forceRelease (Some c) now s = save now s)
   \<and> forceRelease None now s = save now (processNext now (s\<lparr>activeBuilds := []\<rparr>))
   \<and> (\<not> truthy c \<longrightarrow> forceRelease (Some c) now s = forceRelease None now s)
   \<and> (\<forall>kb\<in>set (activeBuilds (forceRelease None now s)).
         startTime (snd kb) = now \<and> lastActivity (snd kb) = now)"
proof -
  have st: "success (stats (forceRelease co now s)) = success (stats s)
   \<and> total (stats (forceRelease co now s)) = total (stats s)
   \<and> totalTime (stats (forceRelease co now s)) = totalTime (stats s)
   \<and> failed (stats (forceRelease co now s))
        = failed (stats s)
          + (if onBuildStart s then 0
             else int (length (queue s)) - int (length (queue (forceRelease co now s))))"
    using processNext_stats[of now "s\<lparr>activeBuilds := []\<rparr>"]
      processNext_stats[of now "s\<lparr>activeBuilds := AList.delete k (activeBuilds s)\<rparr>" for k]
    by (simp add: forceRelease_def split: option.splits)
  have cb: "onBuildStart s \<longrightarrow> stats (forceRelease co now s) = stats s"
    using processNext_stats_callback[of "s\<lparr>activeBuilds := []\<rparr>" now]
      processNext_stats_callback[of "s\<lparr>activeBuilds := AList.delete k (activeBuilds s)\<rparr>" now for k]
    by (simp add: forceRelease_def split: option.splits)
  have one: "truthy c \<and> has_active s c \<longrightarrow>
        forceRelease (Some c) now s
          = save now (processNext now (s\<lparr>activeBuilds := AList.delete c (activeBuilds s)\<rparr>))
        \<and> (onBuildStart s \<longrightarrow> drains (forceRelease (Some c) now s) = drains s + 1)
        \<and> (c \<notin> set (pending_ids s) \<longrightarrow> \<not> has_active (forceRelease (Some c) now s) c)"
  proof (intro impI)
    assume a: "truthy c \<and> has_active s c"
    let ?t = "s\<lparr>activeBuilds := AList.delete c (activeBuilds s)\<rparr>"
    have e: "forceRelease (Some c) now s = save now (processNext now ?t)"
      using a by (simp add: forceRelease_def)
    have d: "onBuildStart s \<longrightarrow> drains (forceRelease (Some c) now s) = drains s + 1"
      unfolding e using processNext_stats_callback[of ?t now] by simp
    have n: "c \<notin> set (pending_ids s) \<longrightarrow> \<not> has_active (forceRelease (Some c) now s) c"
    proof
      assume "c \<notin> set (pending_ids s)"
      then have "c \<notin> set (active_ids ?t) \<union> set (pending_ids ?t)"
        using delete_notin_dom[of c "activeBuilds s"] by simp
      then have "c \<notin> set (active_ids (processNext now ?t))"
        using processNext_active_ids[of now ?t] by blast
      then show "\<not> has_active (forceRelease (Some c) now s) c"
        unfolding e by (simp add: has_active_ids)
    qed
    show "forceRelease (Some c) now s = save now (processNext now ?t)
        \<and> (onBuildStart s \<longrightarrow> drains (forceRelease (Some c) now s) = drains s + 1)
        \<and> (c \<notin> set (pending_ids s) \<longrightarrow> \<not> has_active (forceRelease (Some c) now s) c)"
      using e d n by blast
  qed
  have idle: "truthy c \<and> \<not> has_active s c \<longrightarrow> forceRelease (Some c) now s = save now s"
    by (simp add: forceRelease_def)
  have all: "forceRelease None now s = save now (processNext now (s\<lparr>activeBuilds := []\<rparr>))"
    by (simp add: forceRelease_def)
  have falsy: "\<not> truthy c \<longrightarrow> forceRelease (Some c) now s = forceRelease None now s"
    by (simp add: forceRelease_def)
  have fresh: "\<forall>kb\<in>set (activeBuilds (forceRelease None now s)).
         startTime (snd kb) = now \<and> lastActivity (snd kb) = now"
    unfolding all using processNext_new_entries[of now "s\<lparr>activeBuilds := []\<rparr>"] by auto
  show ?thesis using st cb one idle all falsy fresh by blast
qed

text \<open>
  C10 on the force-release of build 9 with a callback assigned, on the release of
  everything, on an identity that is not running and on the falsy identity 0.
\<close>

theorem forceRelease_frame_witness:
  "onBuildStart (run busy_calls (BuildQueue demo_env))
   \<and> truthy (NumId 9) \<and> has_active (run busy_calls (BuildQueue demo_env)) (NumId 9)
   \<and> NumId 9 \<notin> set (pending_ids (run busy_calls (BuildQueue demo_env)))
   \<and> stats (forceRelease (Some (NumId 9)) 30 (run busy_calls (BuildQueue demo_env)))
       = \<lparr>success = 0, failed = 0, total = 3, totalTime = 0\<rparr>
   \<and> \<not> has_active (forceRelease (Some (NumId 9)) 30 (run busy_calls (BuildQueue demo_env))) (NumId 9)
   \<and> active_ids (forceRelease (Some (NumId 9)) 30 (run busy_calls (BuildQueue demo_env))) = [NumId 1]
   \<and> stats (forceRelease None 30 (run busy_calls (BuildQueue demo_env)))
       = \<lparr>success = 0, failed = 0, total = 3, totalTime = 0\<rparr>
   \<and> truthy (NumId 5) \<and> \<not> has_active (run busy_calls (BuildQueue demo_env)) (NumId 5)
   \<and> forceRelease (Some (NumId 5)) 30 (run busy_calls (BuildQueue demo_env))
       = save 30 (run busy_calls (BuildQueue demo_env))
   \<and> \<not> truthy (NumId 0)
   \<and> forceRelease (Some (NumId 0)) 30 (run busy_calls (BuildQueue demo_env))
       = forceRelease None 30 (run busy_calls (BuildQueue demo_env))"
proof -
  let ?s = "run busy_calls (BuildQueue demo_env)"
  have h: "onBuildStart ?s" "truthy (NumId 9)" "has_active ?s (NumId 9)"
    "NumId 9 \<notin> set (pending_ids ?s)"
    by code_simp+
  have h5: "truthy (NumId 5)" "\<not> has_active ?s (NumId 5)" by code_simp+
  have h0: "\<not> truthy (NumId 0)" by simp
  have 1: "stats ?s = \<lparr>success = 0, failed = 0, total = 3, totalTime = 0\<rparr>" by code_simp
  have 2: "active_ids (forceRelease (Some (NumId 9)) 30 ?s) = [NumId 1]" by code_simp
  from forceRelease_frame[of ?s "Some (NumId 9)" 30 "NumId 9"] h
  have 3: "stats (forceRelease (Some (NumId 9)) 30 ?s) = stats ?s"
    "\<not> has_active (forceRelease (Some (NumId 9)) 30 ?s) (NumId 9)"
    by blast+
  from forceRelease_frame[of ?s None 30 "NumId 5"] h h5
  have 4: "stats (forceRelease None 30 ?s) = stats ?s"
    "forceRelease (Some (NumId 5)) 30 ?s = save 30 ?s" by blast+
  from forceRelease_frame[of ?s None 30 "NumId 0"] h0
  have 5: "forceRelease (Some (NumId 0)) 30 ?s = forceRelease None 30 ?s" by blast
  show ?thesis using h h5 h0 2 3 4 5 unfolding 1 by (intro conjI) simp_all
qed

text \<open>
  C10 as stated fails while no start callback is assigned: force-releasing build 9 (or
  everything) with four requests waiting counts four failures.
\<close>

theorem forceRelease_failure_counterexample:
  "\<not> onBuildStart (run abcd_calls (BuildQueue demo_env))
   \<and> active_ids (run abcd_calls (BuildQueue demo_env)) = [NumId 9]
   \<and> stats (run abcd_calls (BuildQueue demo_env))
       = \<lparr>success = 0, failed = 0, total = 5, totalTime = 0\<rparr>
   \<and> stats (forceRelease (Some (NumId 9)) 50 (run abcd_calls (BuildQueue demo_env)))
       = \<lparr>success = 0, failed = 4, total = 5, totalTime = 0\<rparr>
   \<and> stats (forceRelease None 50 (run abcd_calls (BuildQueue demo_env)))
       = \<lparr>success = 0, failed = 4, total = 5, totalTime = 0\<rparr>"
  by code_simp

end
